theory Spec2Isabelle
  imports Complex_Main "HOL-Library.Product_Lexorder" "HOL-Library.AList"
begin

section \<open>Python failures as values\<close>

text \<open>
  Every \<^verbatim>\<open>raise\<close>, failed \<^verbatim>\<open>assert\<close> and failing numpy call of the modelled
  code is a value of this type; a function that can fail returns \<open>error + 'a\<close>.
\<close>

datatype error = ValueError | AssertionError | IndexError | KeyError

text \<open>\<^verbatim>\<open>np.max(v)\<close>: raises \<^verbatim>\<open>ValueError\<close> on an empty vector.\<close>

fun np_max :: "int list \<Rightarrow> error + int" where
  "np_max [] = Inl ValueError"
| "np_max (x # xs) = Inr (fold max xs x)"

text \<open>
  The value that numpy keeps when an integer is stored into an \<^verbatim>\<open>int32\<close> vector: the
  integer modulo \<open>2 ^ 32\<close>, read as a signed 32-bit number (an overflow wraps around
  silently).
\<close>

definition wrap_int32 :: "int \<Rightarrow> int" where
  "wrap_int32 x = (x + 2 ^ 31) mod 2 ^ 32 - 2 ^ 31"

section \<open>Collecting the results of the piles (pipeline/divide\_and\_conquer.py)\<close>

text \<open>
  The annotations of an \<^verbatim>\<open>AnnData\<close> that the collection of the metacells reads and
  writes: the metadata \<^verbatim>\<open>adata.uns\<close> (the counters \<^verbatim>\<open>pre_directs\<close> and
  \<^verbatim>\<open>final_directs\<close>) and the per-cell vectors \<^verbatim>\<open>adata.obs\<close> (\<^verbatim>\<open>pre_metacell\<close> and
  \<^verbatim>\<open>metacell\<close>, vectors of \<^verbatim>\<open>int32\<close>), each a dictionary from names to values, in
  insertion order.
\<close>

record adata =
  m_data :: "(string \<times> int) list"
  o_data :: "(string \<times> int list) list"

text \<open>
  \<^verbatim>\<open>get_m_data\<close> and \<^verbatim>\<open>get_o_data\<close> (utilities/annotation.py) without a \<^verbatim>\<open>compute\<close>
  function: a name that is not in the dictionary raises \<^verbatim>\<open>KeyError\<close>.
\<close>

definition get_m_data :: "adata \<Rightarrow> string \<Rightarrow> error + int" where
  "get_m_data data name =
     (case map_of (m_data data) name of None \<Rightarrow> Inl KeyError | Some v \<Rightarrow> Inr v)"

definition get_o_data :: "adata \<Rightarrow> string \<Rightarrow> error + int list" where
  "get_o_data data name =
     (case map_of (o_data data) name of None \<Rightarrow> Inl KeyError | Some v \<Rightarrow> Inr v)"

text \<open>
  Modelled from the spec: \<^verbatim>\<open>set_m_data\<close> and \<^verbatim>\<open>set_o_data\<close> are not in the part of
  utilities/annotation.py that is among the sources; they store the value under the
  name, replacing the value the name had.
\<close>

definition set_m_data :: "adata \<Rightarrow> string \<Rightarrow> int \<Rightarrow> adata" where
  "set_m_data data name v = data \<lparr> m_data := AList.update name v (m_data data) \<rparr>"

definition set_o_data :: "adata \<Rightarrow> string \<Rightarrow> int list \<Rightarrow> adata" where
  "set_o_data data name v = data \<lparr> o_data := AList.update name v (o_data data) \<rparr>"

text \<open>
  The local function \<^verbatim>\<open>_prefix\<close> of \<^verbatim>\<open>_collect_pile_results\<close> and of
  \<^verbatim>\<open>_collect_outliers_results\<close>: \<^verbatim>\<open>final_prefix + name if is_final else 'pre_' + name\<close>.
  The counter is looked up as \<^verbatim>\<open>_prefix('directs', 'final')\<close>, which in the final phase
  is the name \<^verbatim>\<open>finaldirects\<close>, without the underscore of \<^verbatim>\<open>final_directs\<close>.
\<close>

definition prefix_name :: "bool \<Rightarrow> string \<Rightarrow> string \<Rightarrow> string" where
  "prefix_name is_final name final_prefix =
     (if is_final then final_prefix @ name else ''pre_'' @ name)"

text \<open>
  The part of a pile's \<^verbatim>\<open>cells_frame\<close> that carries the metacells: one row per cell of
  the pile, holding the cell's index in the complete data (the frame's index) and the
  cell's metacell inside the pile (negative when the cell is an outlier there).
\<close>

type_synonym cells_frame = "(nat \<times> int) list"

text \<open>
  \<^verbatim>\<open>metacell_of_cells[cell_indices] = pile_metacells\<close>: the rows are written one after the
  other; an index outside the vector raises \<^verbatim>\<open>IndexError\<close>.
\<close>

fun set_metacell :: "int list \<Rightarrow> cells_frame \<Rightarrow> error + int list" where
  "set_metacell metacell_of_cells [] = Inr metacell_of_cells"
| "set_metacell metacell_of_cells ((cell_index, metacell) # rows) =
     (if cell_index < length metacell_of_cells
      then set_metacell (metacell_of_cells[cell_index := metacell]) rows
      else Inl IndexError)"

text \<open>
  \<^verbatim>\<open>v[v >= 0] += metacells_count\<close> on the metacell column of a frame, a vector of
  \<^verbatim>\<open>int32\<close>: the sums are stored back into the vector.
\<close>

definition offset_metacells :: "cells_frame \<Rightarrow> int \<Rightarrow> cells_frame" where
  "offset_metacells frame metacells_count =
     map (\<lambda>(cell_index, metacell).
            (cell_index,
             if metacell \<ge> 0 then wrap_int32 (metacell + metacells_count) else metacell)) frame"

text \<open>
  \<^verbatim>\<open>_collect_pile_results\<close>, restricted to the counter of the direct computations and to
  the metacell annotation (the per-gene annotations and, with \<^verbatim>\<open>intermediate\<close>, the
  other per-cell annotations are left out: they neither read nor write the metacells).
  It increments the counter, offsets the pile's metacells, computes the new count (the
  sum of a numpy scalar and a Python integer, not stored in a vector), writes the
  metacells into the complete data and returns the new count.
\<close>

definition collect_pile_results ::
  "adata \<Rightarrow> bool \<Rightarrow> cells_frame \<Rightarrow> int \<Rightarrow> error + (adata \<times> int)" where
  "collect_pile_results cdata is_final cells_frame metacells_count =
     (case get_m_data cdata (prefix_name is_final ''directs'' ''final'') of
        Inl e \<Rightarrow> Inl e
      | Inr directs \<Rightarrow>
          (let cdata1 = set_m_data cdata (prefix_name is_final ''directs'' ''final'') (directs + 1);
               pile_metacells = offset_metacells cells_frame metacells_count
           in case np_max (map snd pile_metacells) of
                Inl e \<Rightarrow> Inl e
              | Inr m \<Rightarrow>
                  (case get_o_data cdata1 (prefix_name is_final ''metacell'' []) of
                     Inl e \<Rightarrow> Inl e
                   | Inr metacell_of_cells \<Rightarrow>
                       (case set_metacell metacell_of_cells pile_metacells of
                          Inl e \<Rightarrow> Inl e
                        | Inr metacell_of_cells' \<Rightarrow>
                            Inr (set_o_data cdata1 (prefix_name is_final ''metacell'' [])
                                   metacell_of_cells',
                                 m + 1)))))"

text \<open>
  The loop of \<^verbatim>\<open>_collect_piles_results\<close>, in pile-index order. The source calls
  \<^verbatim>\<open>_collect_pile_results(..., metacells_count, ...)\<close> as a statement: the count it
  returns is dropped, and the next pile is collected with the same \<^verbatim>\<open>metacells_count\<close>.
\<close>

fun collect_piles_loop :: "adata \<Rightarrow> bool \<Rightarrow> int \<Rightarrow> cells_frame list \<Rightarrow> error + adata" where
  "collect_piles_loop cdata is_final metacells_count [] = Inr cdata"
| "collect_piles_loop cdata is_final metacells_count (cells_frame # results_of_piles) =
     (case collect_pile_results cdata is_final cells_frame metacells_count of
        Inl e \<Rightarrow> Inl e
      | Inr (cdata', _) \<Rightarrow>
          collect_piles_loop cdata' is_final metacells_count results_of_piles)"

definition collect_piles_results ::
  "adata \<Rightarrow> cells_frame list \<Rightarrow> string \<Rightarrow> error + (adata \<times> int)" where
  "collect_piles_results cdata results_of_piles phase =
     (if phase \<noteq> ''preliminary'' \<and> phase \<noteq> ''final'' then Inl AssertionError
      else
        (let is_final = (phase = ''final'');
             metacells_count = 0
         in case collect_piles_loop cdata is_final metacells_count results_of_piles of
              Inl e \<Rightarrow> Inl e
            | Inr cdata' \<Rightarrow> Inr (cdata', metacells_count)))"

text \<open>
  \<^verbatim>\<open>_collect_outliers_results\<close>, with the same restriction: the counter of the complete
  data is increased by the two counters of the outliers data \<^verbatim>\<open>odata\<close>, and the
  metacells of the outliers data are offset and written into the complete data. The
  frame holds the \<^verbatim>\<open>complete_cell_index\<close> and the \<^verbatim>\<open>metacell\<close> of each cell of the
  outliers data.
\<close>

definition collect_outliers_results ::
  "adata \<Rightarrow> adata \<Rightarrow> cells_frame \<Rightarrow> string \<Rightarrow> int \<Rightarrow> error + adata" where
  "collect_outliers_results cdata odata outliers_frame phase metacells_count =
     (if phase \<noteq> ''preliminary'' \<and> phase \<noteq> ''final'' then Inl AssertionError
      else
        (let is_final = (phase = ''final'') in
         case get_m_data cdata (prefix_name is_final ''directs'' ''final'') of
           Inl e \<Rightarrow> Inl e
         | Inr directs \<Rightarrow>
             (case get_m_data odata ''pre_directs'' of
                Inl e \<Rightarrow> Inl e
              | Inr pre_directs \<Rightarrow>
                  (case get_m_data odata ''final_directs'' of
                     Inl e \<Rightarrow> Inl e
                   | Inr final_directs \<Rightarrow>
                       (let cdata1 = set_m_data cdata (prefix_name is_final ''directs'' ''final'')
                                       (directs + pre_directs + final_directs);
                            outlier_metacells = offset_metacells outliers_frame metacells_count
                        in case get_o_data cdata1 (prefix_name is_final ''metacell'' []) of
                             Inl e \<Rightarrow> Inl e
                           | Inr metacell_of_cells \<Rightarrow>
                               (case set_metacell metacell_of_cells outlier_metacells of
                                  Inl e \<Rightarrow> Inl e
                                | Inr metacell_of_cells' \<Rightarrow>
                                    Inr (set_o_data cdata1 (prefix_name is_final ''metacell'' [])
                                           metacell_of_cells')))))))"

subsection \<open>Computing the metacells of one pile\<close>

text \<open>
  What \<^verbatim>\<open>_compute_pile_metacells\<close> hands to \<^verbatim>\<open>compute_direct_metacells\<close> (a function of
  another module, taken as a parameter): the cells of the pile, the cover flag and the
  random seed.
\<close>

record direct_call =
  pile_cells :: "nat list"
  direct_must_complete_cover :: bool
  direct_random_seed :: int

definition pile_direct_call :: "int list \<Rightarrow> int \<Rightarrow> int \<Rightarrow> error + direct_call" where
  "pile_direct_call pile_of_cells random_seed pile_index =
     (let pile_cells_mask = map (\<lambda>pile. pile = pile_index) pile_of_cells in
      if \<not> list_ex id pile_cells_mask then Inl AssertionError
      else Inr \<lparr> pile_cells = filter (\<lambda>cell. pile_cells_mask ! cell) [0 ..< length pile_of_cells],
                 direct_must_complete_cover = False,
                 direct_random_seed = random_seed \<rparr>)"

definition compute_pile_metacells ::
  "(direct_call \<Rightarrow> cells_frame) \<Rightarrow> int list \<Rightarrow> int \<Rightarrow> int \<Rightarrow> error + cells_frame" where
  "compute_pile_metacells compute_direct_metacells pile_of_cells random_seed pile_index =
     (case pile_direct_call pile_of_cells random_seed pile_index of
        Inl e \<Rightarrow> Inl e
      | Inr call \<Rightarrow> Inr (compute_direct_metacells call))"

section \<open>The communities and the improver (tools/candidates.py)\<close>

text \<open>
  The \<^verbatim>\<open>Community\<close> dataclass. The fields keep the names of the source with the prefix
  \<open>c_\<close> (\<^verbatim>\<open>too_few\<close>, \<^verbatim>\<open>too_small\<close> and \<^verbatim>\<open>too_large\<close> are also attributes of the
  improver). Python's integers are unbounded: \<open>int\<close>.
\<close>

record community =
  c_index :: int
  c_nodes :: int
  c_size :: int
  c_mask :: "bool list"
  c_too_few :: int
  c_too_small :: int
  c_too_large :: int
  c_monolithic :: bool

text \<open>
  The attributes of \<^verbatim>\<open>Improver\<close> that \<^verbatim>\<open>__init__\<close> sets once and no method changes.
\<close>

record config =
  node_sizes :: "int list option"
  target_comm_size :: int
  max_comm_size :: "int option"
  min_comm_size :: "int option"
  min_comm_nodes :: "int option"
  must_complete_cover :: bool

text \<open>
  The attributes of \<^verbatim>\<open>Improver\<close> that its methods change. \<open>split_attempts\<close> is not an
  attribute of the source: it records, in order, the index of every community whose
  subgraph \<^verbatim>\<open>split_large\<close> has passed to the partition method, so that properties of the
  history of the calls can be stated.
\<close>

record improver =
  membership :: "int list"
  communities :: "community list"
  too_few :: int
  too_small :: int
  too_large :: int
  next_community_index :: int
  split_attempts :: "int list"

text \<open>
  The partition method is a parameter of the source. The edge weights and the size
  hints it is given are fixed for one improver, so a call is determined by the graph it
  is asked to partition: the whole graph; the graph condensed from some communities
  (their masks, in order, and their sizes as node sizes); or the subgraph of the nodes of
  one mask (with their node sizes, if any). It returns the community of each node.
\<close>

datatype request =
    Whole_graph
  | Condensed_graph "bool list list" "int list"
  | Subgraph "bool list" "int list option"

type_synonym partition_method = "request \<Rightarrow> int list"

subsection \<open>Vectors and masks\<close>

text \<open>\<^verbatim>\<open>np.sum(mask)\<close>.\<close>

definition count_true :: "bool list \<Rightarrow> int" where
  "count_true nodes_mask = int (length (filter id nodes_mask))"

text \<open>\<^verbatim>\<open>values[mask]\<close>, for a mask as long as the vector.\<close>

definition masked :: "int list \<Rightarrow> bool list \<Rightarrow> int list" where
  "masked values nodes_mask = map fst (filter snd (zip values nodes_mask))"

text \<open>\<^verbatim>\<open>vector[mask] = value\<close>, for a mask as long as the vector.\<close>

definition assign_mask :: "int list \<Rightarrow> bool list \<Rightarrow> int \<Rightarrow> int list" where
  "assign_mask vector nodes_mask v = map (\<lambda>(old, b). if b then v else old) (zip vector nodes_mask)"

text \<open>
  \<^verbatim>\<open>vector[mask] = values\<close>: the values go, in order, to the positions where the mask
  holds; a single value is broadcast; any other number of values than the number of
  positions raises \<^verbatim>\<open>ValueError\<close>.
\<close>

fun scatter :: "int list \<Rightarrow> bool list \<Rightarrow> int list \<Rightarrow> int list" where
  "scatter (old # vector) (b # nodes_mask) values =
     (if b then (case values of
                   [] \<Rightarrow> old # scatter vector nodes_mask []
                 | v # values' \<Rightarrow> v # scatter vector nodes_mask values')
      else old # scatter vector nodes_mask values)"
| "scatter vector _ _ = vector"

definition assign_values :: "int list \<Rightarrow> bool list \<Rightarrow> int list \<Rightarrow> error + int list" where
  "assign_values vector nodes_mask values =
     (if int (length values) = count_true nodes_mask then Inr (scatter vector nodes_mask values)
      else if length values = 1 then Inr (assign_mask vector nodes_mask (hd values))
      else Inl ValueError)"

text \<open>\<^verbatim>\<open>vector[vector == old] = new\<close>.\<close>

definition relabel :: "int list \<Rightarrow> int \<Rightarrow> int \<Rightarrow> int list" where
  "relabel vector old new = map (\<lambda>v. if v = old then new else v) vector"

text \<open>Python's order on pairs: \<^verbatim>\<open>(a, b) < (c, d)\<close>.\<close>

definition tuple_less :: "int \<times> int \<Rightarrow> int \<times> int \<Rightarrow> bool" where
  "tuple_less p q = (fst p < fst q \<or> (fst p = fst q \<and> snd p < snd q))"

subsection \<open>\<^verbatim>\<open>Improver.add\<close> and \<^verbatim>\<open>Improver.remove\<close>\<close>

text \<open>One round of the loop of \<^verbatim>\<open>add\<close>: the community of the next unused index.\<close>

definition add_community :: "config \<Rightarrow> improver \<Rightarrow> improver" where
  "add_community cfg s =
     (let community_index = next_community_index s;
          nodes_mask = map (\<lambda>m. m = community_index) (membership s);
          total_nodes = count_true nodes_mask;
          few = (case min_comm_nodes cfg of
                   Some min_nodes \<Rightarrow> if total_nodes < min_nodes then min_nodes - total_nodes else 0
                 | None \<Rightarrow> 0);
          total_size = (case node_sizes cfg of
                          None \<Rightarrow> count_true nodes_mask
                        | Some sizes \<Rightarrow> sum_list (masked sizes nodes_mask));
          small = (case min_comm_size cfg of
                     Some min_size \<Rightarrow> if total_size < min_size then min_size - total_size else 0
                   | None \<Rightarrow> 0);
          large = (case max_comm_size cfg of
                     Some max_size \<Rightarrow> if total_size > max_size then total_size - max_size else 0
                   | None \<Rightarrow> 0)
      in s \<lparr> next_community_index := community_index + 1,
             too_few := too_few s + few,
             too_small := too_small s + small,
             too_large := too_large s + large,
             communities := communities s @
               [\<lparr> c_index = community_index, c_nodes = total_nodes, c_size = total_size,
                  c_mask = nodes_mask, c_too_few = few, c_too_small = small, c_too_large = large,
                  c_monolithic = False \<rparr>] \<rparr>)"

primrec add_loop :: "nat \<Rightarrow> config \<Rightarrow> improver \<Rightarrow> improver" where
  "add_loop 0 cfg s = s"
| "add_loop (Suc n) cfg s = add_loop n cfg (add_community cfg s)"

definition add :: "config \<Rightarrow> int option \<Rightarrow> improver \<Rightarrow> error + improver" where
  "add cfg count s =
     (case count of
        None \<Rightarrow>
          if next_community_index s \<noteq> 0 then Inl AssertionError
          else (case np_max (membership s) of
                  Inl e \<Rightarrow> Inl e
                | Inr m \<Rightarrow> Inr (add_loop (nat (m + 1)) cfg s))
      | Some n \<Rightarrow>
          if next_community_index s > 0 then Inr (add_loop (nat n) cfg s)
          else Inl AssertionError)"

definition remove :: "nat \<Rightarrow> improver \<Rightarrow> error + improver" where
  "remove position s =
     (if position \<ge> length (communities s) then Inl IndexError
      else
        let community = communities s ! position;
            s' = s \<lparr> communities := take position (communities s) @ drop (Suc position) (communities s),
                     too_few := too_few s - c_too_few community,
                     too_small := too_small s - c_too_small community,
                     too_large := too_large s - c_too_large community \<rparr>
        in if too_few s' \<ge> 0 \<and> too_small s' \<ge> 0 \<and> too_large s' \<ge> 0 then Inr s'
           else Inl AssertionError)"

text \<open>\<^verbatim>\<open>for position in positions: self.remove(position)\<close>.\<close>

fun remove_positions :: "nat list \<Rightarrow> improver \<Rightarrow> error + improver" where
  "remove_positions [] s = Inr s"
| "remove_positions (position # positions) s =
     (case remove position s of
        Inl e \<Rightarrow> Inl e
      | Inr s' \<Rightarrow> remove_positions positions s')"

text \<open>
  \<^verbatim>\<open>Improver.__init__\<close>. A vector of node sizes whose length is not that of the membership
  raises \<^verbatim>\<open>IndexError\<close> at the first \<^verbatim>\<open>node_sizes[mask]\<close>.
\<close>

definition Improver_init :: "config \<Rightarrow> int list \<Rightarrow> error + improver" where
  "Improver_init cfg membership_vector =
     (case np_max membership_vector of
        Inl e \<Rightarrow> Inl e
      | Inr m \<Rightarrow>
          if m + 1 > 0 \<and> (case node_sizes cfg of
                            Some sizes \<Rightarrow> length sizes \<noteq> length membership_vector
                          | None \<Rightarrow> False)
          then Inl IndexError
          else add cfg None \<lparr> membership = membership_vector, communities = [],
                               too_few = 0, too_small = 0, too_large = 0,
                               next_community_index = 0, split_attempts = [] \<rparr>)"

subsection \<open>\<^verbatim>\<open>Improver.merge_few_or_small\<close>\<close>

definition few_or_small :: "community \<Rightarrow> bool" where
  "few_or_small community = (\<not> (c_too_few community = 0 \<and> c_too_small community = 0))"

definition merge_few_or_small ::
  "partition_method \<Rightarrow> config \<Rightarrow> improver \<Rightarrow> error + (improver \<times> bool)" where
  "merge_few_or_small partition_method cfg s =
     (let position_of_merged_communities =
            filter (\<lambda>position. few_or_small (communities s ! position))
                   [0 ..< length (communities s)];
          merged_communities = map (\<lambda>position. communities s ! position)
                                   position_of_merged_communities
      in if length merged_communities < 2 then Inr (s, False)
         else
           let merged_communities_membership =
                 partition_method (Condensed_graph (map c_mask merged_communities)
                                            (map c_size merged_communities));
               s1 = s \<lparr> membership :=
                          fold (\<lambda>(merged_community, merged_index) vector.
                                  assign_mask vector (c_mask merged_community)
                                              (merged_index + next_community_index s))
                               (zip merged_communities merged_communities_membership)
                               (membership s) \<rparr>;
               before_too_few = too_few s1;
               before_too_small = too_small s1
           in case remove_positions (rev position_of_merged_communities) s1 of
                Inl e \<Rightarrow> Inl e
              | Inr s2 \<Rightarrow>
                  (case np_max merged_communities_membership of
                     Inl e \<Rightarrow> Inl e
                   | Inr m \<Rightarrow>
                       (case add cfg (Some (m + 1)) s2 of
                          Inl e \<Rightarrow> Inl e
                        | Inr s3 \<Rightarrow>
                            Inr (s3, tuple_less (too_few s3, too_small s3)
                                                (before_too_few, before_too_small)))))"

subsection \<open>\<^verbatim>\<open>Improver.split_large\<close>\<close>

text \<open>
  The body of the loop of \<^verbatim>\<open>split_large\<close> for a community that is too large and not
  monolithic: the partition method is run on its subgraph; when it returns one community
  the community is flagged monolithic (the result says no split was done), otherwise the
  community is removed and the communities of its nodes are added.
\<close>

definition split_attempt ::
  "partition_method \<Rightarrow> config \<Rightarrow> improver \<Rightarrow> nat \<Rightarrow> error + improver \<times> bool" where
  "split_attempt partition_method cfg s position =
     (let split_community = communities s ! position;
          split_node_sizes =
            map_option (\<lambda>sizes. masked sizes (c_mask split_community)) (node_sizes cfg);
          split_nodes_membership =
            partition_method (Subgraph (c_mask split_community) split_node_sizes);
          s0 = s \<lparr> split_attempts := split_attempts s @ [c_index split_community] \<rparr>
      in case np_max split_nodes_membership of
           Inl e \<Rightarrow> Inl e
         | Inr m \<Rightarrow>
             if m + 1 = 1
             then Inr (s0 \<lparr> communities :=
                              (communities s0)[position :=
                                 split_community \<lparr> c_monolithic := True \<rparr>] \<rparr>, False)
             else
               (case remove position s0 of
                  Inl e \<Rightarrow> Inl e
                | Inr s1 \<Rightarrow>
                    (case assign_values (membership s1) (c_mask split_community)
                            (map (\<lambda>v. v + next_community_index s1) split_nodes_membership) of
                       Inl e \<Rightarrow> Inl e
                     | Inr membership' \<Rightarrow>
                         (case add cfg (Some (m + 1)) (s1 \<lparr> membership := membership' \<rparr>) of
                            Inl e \<Rightarrow> Inl e
                          | Inr s2 \<Rightarrow> Inr (s2, True)))))"

text \<open>
  The loop of \<^verbatim>\<open>split_large\<close> over the positions: after a split the position stays
  (the list is one shorter there), otherwise it moves on. The communities a split creates
  are appended to the list and visited by the same loop, so nothing bounds the number of
  rounds beforehand: the result is \<open>None\<close> when the loop never ends.
\<close>

partial_function (option) split_large_loop ::
  "partition_method \<Rightarrow> config \<Rightarrow> improver \<Rightarrow> nat \<Rightarrow> bool \<Rightarrow> (error + improver \<times> bool) option" where
  "split_large_loop partition_method cfg s position did_split =
     (if position < length (communities s) then
        (if c_too_large (communities s ! position) = 0
            \<or> c_monolithic (communities s ! position)
         then split_large_loop partition_method cfg s (position + 1) did_split
         else
           (case split_attempt partition_method cfg s position of
              Inl e \<Rightarrow> Some (Inl e)
            | Inr (s', did) \<Rightarrow>
                if did then split_large_loop partition_method cfg s' position True
                else split_large_loop partition_method cfg s' (position + 1) did_split))
      else Some (Inr (s, did_split)))"

declare split_large_loop.simps [code]

definition split_large ::
  "partition_method \<Rightarrow> config \<Rightarrow> improver \<Rightarrow> (error + improver \<times> bool) option" where
  "split_large partition_method cfg s = split_large_loop partition_method cfg s 0 False"

subsection \<open>\<^verbatim>\<open>Improver.improve\<close>\<close>

text \<open>
  \<^verbatim>\<open>while self.too_few > 0 or self.too_small > 0: if not self.merge_few_or_small(): break\<close>
\<close>

partial_function (option) merge_while ::
  "partition_method \<Rightarrow> config \<Rightarrow> improver \<Rightarrow> (error + improver) option" where
  "merge_while partition_method cfg s =
     (if too_few s > 0 \<or> too_small s > 0 then
        (case merge_few_or_small partition_method cfg s of
           Inl e \<Rightarrow> Some (Inl e)
         | Inr (s', did_improve) \<Rightarrow>
             if \<not> did_improve then Some (Inr s') else merge_while partition_method cfg s')
      else Some (Inr s))"

declare merge_while.simps [code]

text \<open>
  \<^verbatim>\<open>while self.too_large > 0: if not self.split_large(): break; did_split = True\<close>
\<close>

partial_function (option) split_while ::
  "partition_method \<Rightarrow> config \<Rightarrow> improver \<Rightarrow> bool \<Rightarrow> (error + improver \<times> bool) option" where
  "split_while partition_method cfg s did_split =
     (if too_large s > 0 then
        (case split_large partition_method cfg s of
           None \<Rightarrow> None
         | Some (Inl e) \<Rightarrow> Some (Inl e)
         | Some (Inr (s', did)) \<Rightarrow>
             if \<not> did then Some (Inr (s', did_split)) else split_while partition_method cfg s' True)
      else Some (Inr (s, did_split)))"

declare split_while.simps [code]

text \<open>The outer loop of \<^verbatim>\<open>improve\<close>, with the \<^verbatim>\<open>penalty\<close> of the previous round.\<close>

partial_function (option) improve_loop ::
  "partition_method \<Rightarrow> config \<Rightarrow> improver \<Rightarrow> int \<times> int \<Rightarrow> (error + improver) option" where
  "improve_loop partition_method cfg s penalty =
     (if tuple_less (too_few s, too_small s + too_large s) penalty then
        (if max_comm_size cfg \<noteq> None then
           (case split_while partition_method cfg s False of
              None \<Rightarrow> None
            | Some (Inl e) \<Rightarrow> Some (Inl e)
            | Some (Inr (s1, did_split)) \<Rightarrow>
                if did_split \<and> min_comm_size cfg \<noteq> None then
                  (case merge_while partition_method cfg s1 of
                     None \<Rightarrow> None
                   | Some (Inl e) \<Rightarrow> Some (Inl e)
                   | Some (Inr s2) \<Rightarrow>
                       improve_loop partition_method cfg s2 (too_few s, too_small s + too_large s))
                else improve_loop partition_method cfg s1 (too_few s, too_small s + too_large s))
         else improve_loop partition_method cfg s (too_few s, too_small s + too_large s))
      else Some (Inr s))"

declare improve_loop.simps [code]

definition improve :: "partition_method \<Rightarrow> config \<Rightarrow> improver \<Rightarrow> (error + improver) option" where
  "improve partition_method cfg s =
     (case (if min_comm_size cfg \<noteq> None then merge_while partition_method cfg s else Some (Inr s)) of
        None \<Rightarrow> None
      | Some (Inl e) \<Rightarrow> Some (Inl e)
      | Some (Inr s1) \<Rightarrow>
          improve_loop partition_method cfg s1 (too_few s1, too_small s1 + too_large s1 + 1))"

subsection \<open>\<^verbatim>\<open>Improver.pack\<close> and \<^verbatim>\<open>Improver.fill\<close>\<close>

text \<open>
  The first loop of \<^verbatim>\<open>pack\<close>: every community that is too small or has too few nodes
  is removed from the list, its size and index being collected.
\<close>

function pack_loop ::
  "improver \<Rightarrow> nat \<Rightarrow> int list \<Rightarrow> int list \<Rightarrow> error + (improver \<times> int list \<times> int list)" where
  "pack_loop s position list_of_small_community_sizes list_of_small_community_indices =
     (if position < length (communities s) then
        (let community = communities s ! position in
         if c_too_small community = 0 \<and> c_too_few community = 0
         then pack_loop s (position + 1)
                list_of_small_community_sizes list_of_small_community_indices
         else
           (case remove position s of
              Inl e \<Rightarrow> Inl e
            | Inr s' \<Rightarrow>
                pack_loop s' position
                  (list_of_small_community_sizes @ [c_size community])
                  (list_of_small_community_indices @ [c_index community])))
      else Inr (s, list_of_small_community_sizes, list_of_small_community_indices))"
  by pat_completeness auto
termination
  by (relation "measure (\<lambda>(s, position, sizes, indices). length (communities s) - position)")
     (auto simp: remove_def Let_def split: if_splits)

declare pack_loop.simps [simp del]

text \<open>
  \<^verbatim>\<open>pack\<close>. \<^verbatim>\<open>bin_pack\<close> (utilities/computation.py) is not among the sources: it is a
  parameter, from the sizes and the target size to the bin of each size.
\<close>

definition pack :: "(int list \<Rightarrow> int \<Rightarrow> int list) \<Rightarrow> config \<Rightarrow> improver \<Rightarrow> error + improver" where
  "pack bin_pack cfg s =
     (case pack_loop s 0 [] [] of
        Inl e \<Rightarrow> Inl e
      | Inr (s1, list_of_small_community_sizes, list_of_small_community_indices) \<Rightarrow>
          if length list_of_small_community_indices = 0 then Inr s1
          else
            (let small_community_bins =
                   bin_pack list_of_small_community_sizes (target_comm_size cfg)
             in case np_max small_community_bins of
                  Inl e \<Rightarrow> Inl e
                | Inr m \<Rightarrow>
                    add cfg (Some (m + 1))
                      (s1 \<lparr> membership :=
                               fold (\<lambda>(small_community_index, community_bin) vector.
                                       relabel vector small_community_index
                                               (next_community_index s1 + community_bin))
                                    (zip list_of_small_community_indices small_community_bins)
                                    (membership s1) \<rparr>)))"

text \<open>
  The first loop of \<^verbatim>\<open>fill\<close>: every community with too few nodes is removed from the
  list, its number of nodes and its index being collected.
\<close>

function fill_loop ::
  "improver \<Rightarrow> nat \<Rightarrow> int \<Rightarrow> int list \<Rightarrow> int list
   \<Rightarrow> error + (improver \<times> int \<times> int list \<times> int list)" where
  "fill_loop s position total_nodes list_of_few_community_nodes list_of_few_community_indices =
     (if position < length (communities s) then
        (let community = communities s ! position in
         if c_too_few community = 0
         then fill_loop s (position + 1) total_nodes
                list_of_few_community_nodes list_of_few_community_indices
         else
           (case remove position s of
              Inl e \<Rightarrow> Inl e
            | Inr s' \<Rightarrow>
                fill_loop s' position (total_nodes + c_nodes community)
                  (list_of_few_community_nodes @ [c_nodes community])
                  (list_of_few_community_indices @ [c_index community])))
      else Inr (s, total_nodes, list_of_few_community_nodes, list_of_few_community_indices))"
  by pat_completeness auto
termination
  by (relation "measure (\<lambda>(s, position, total, nodes, indices). length (communities s) - position)")
     (auto simp: remove_def Let_def split: if_splits)

declare fill_loop.simps [simp del]

text \<open>
  The loop over the sorted candidates (nodes, size, position, index) when the cover must
  be complete: candidates are claimed, fewest nodes first, until the total number of
  nodes reaches the minimum.
\<close>

fun claim_candidates ::
  "(int \<times> int \<times> nat \<times> int) list \<Rightarrow> int \<Rightarrow> int \<Rightarrow> nat list \<Rightarrow> int list \<Rightarrow> int list
   \<Rightarrow> nat list \<times> int list \<times> int list" where
  "claim_candidates [] min_nodes total_nodes positions list_of_few_community_nodes
       list_of_few_community_indices =
     (positions, list_of_few_community_nodes, list_of_few_community_indices)"
| "claim_candidates ((community_nodes, community_size, community_position, community_index)
                       # candidates)
       min_nodes total_nodes positions list_of_few_community_nodes
       list_of_few_community_indices =
     (if total_nodes + community_nodes \<ge> min_nodes
      then (positions @ [community_position],
            list_of_few_community_nodes @ [community_nodes],
            list_of_few_community_indices @ [community_index])
      else claim_candidates candidates min_nodes (total_nodes + community_nodes)
             (positions @ [community_position])
             (list_of_few_community_nodes @ [community_nodes])
             (list_of_few_community_indices @ [community_index]))"

text \<open>
  The branch of \<^verbatim>\<open>fill\<close> taken when the cover must be complete and the communities
  with too few nodes do not hold the minimal number of nodes together: the remaining
  communities are the candidates, sorted as tuples (nodes, size, position, index);
  \<^verbatim>\<open>sorted\<close> on tuples of integers is the lexicographic order. The claimed candidates
  are removed from the list, last position first.
\<close>

definition fill_candidates :: "improver \<Rightarrow> (int \<times> int \<times> nat \<times> int) list" where
  "fill_candidates s =
     sort (map (\<lambda>position. (c_nodes (communities s ! position),
                             c_size (communities s ! position),
                             position,
                             c_index (communities s ! position)))
               (filter (\<lambda>position. c_too_few (communities s ! position) = 0)
                       [0 ..< length (communities s)]))"

definition borrow ::
  "int \<Rightarrow> improver \<Rightarrow> int \<Rightarrow> int list \<Rightarrow> int list \<Rightarrow> error + (improver \<times> int list \<times> int list)" where
  "borrow min_nodes s total_nodes list_of_few_community_nodes list_of_few_community_indices =
     (case claim_candidates (fill_candidates s) min_nodes total_nodes []
             list_of_few_community_nodes list_of_few_community_indices of
        (positions, few_nodes, few_indices) \<Rightarrow>
          (case remove_positions (rev (sort positions)) s of
             Inl e \<Rightarrow> Inl e
           | Inr s' \<Rightarrow> Inr (s', few_nodes, few_indices)))"

text \<open>
  \<^verbatim>\<open>fill\<close>. \<^verbatim>\<open>bin_fill\<close> (utilities/computation.py) is not among the sources: it is a
  parameter, from the numbers of nodes and the minimal number of nodes to the bin of each.
\<close>

definition fill :: "(int list \<Rightarrow> int \<Rightarrow> int list) \<Rightarrow> config \<Rightarrow> improver \<Rightarrow> error + improver" where
  "fill bin_fill cfg s =
     (case min_comm_nodes cfg of
        None \<Rightarrow> Inl AssertionError
      | Some min_nodes \<Rightarrow>
          (case fill_loop s 0 0 [] [] of
             Inl e \<Rightarrow> Inl e
           | Inr (s1, total_nodes, few_nodes, few_indices) \<Rightarrow>
               if length few_indices = 0 then Inr s1
               else
                 (case (if must_complete_cover cfg \<and> total_nodes < min_nodes
                        then borrow min_nodes s1 total_nodes few_nodes few_indices
                        else Inr (s1, few_nodes, few_indices)) of
                    Inl e \<Rightarrow> Inl e
                  | Inr (s2, list_of_few_community_nodes, list_of_few_community_indices) \<Rightarrow>
                      (let few_community_bins = bin_fill list_of_few_community_nodes min_nodes
                       in case np_max few_community_bins of
                            Inl e \<Rightarrow> Inl e
                          | Inr m \<Rightarrow>
                              add cfg (Some (m + 1))
                                (s2 \<lparr> membership :=
                                         fold (\<lambda>(few_community_index, community_bin) vector.
                                                 relabel vector few_community_index
                                                         (next_community_index s2 + community_bin))
                                              (zip list_of_few_community_indices few_community_bins)
                                              (membership s2) \<rparr>)))))"

subsection \<open>\<^verbatim>\<open>compute_candidate_metacells\<close>\<close>

text \<open>
  The refinement inside \<^verbatim>\<open>compute_candidate_metacells\<close> (lines 169 to 186): the improver
  is built from the membership of the partition method and improved, \<^verbatim>\<open>pack\<close> is run
  when there is a minimal size and \<^verbatim>\<open>fill\<close> when there is a minimal number of nodes.
  The result is \<open>None\<close> when \<^verbatim>\<open>improve\<close> never returns.
\<close>

definition refine ::
  "partition_method \<Rightarrow> (int list \<Rightarrow> int \<Rightarrow> int list) \<Rightarrow> (int list \<Rightarrow> int \<Rightarrow> int list)
   \<Rightarrow> config \<Rightarrow> int list \<Rightarrow> (error + improver) option" where
  "refine partition_method bin_pack bin_fill cfg community_of_cells =
     (case Improver_init cfg community_of_cells of
        Inl e \<Rightarrow> Some (Inl e)
      | Inr s0 \<Rightarrow>
          (case improve partition_method cfg s0 of
             None \<Rightarrow> None
           | Some (Inl e) \<Rightarrow> Some (Inl e)
           | Some (Inr s1) \<Rightarrow>
               (case (if min_comm_size cfg \<noteq> None then pack bin_pack cfg s1 else Inr s1) of
                  Inl e \<Rightarrow> Some (Inl e)
                | Inr s2 \<Rightarrow>
                    (case (if min_comm_nodes cfg \<noteq> None then fill bin_fill cfg s2
                           else Inr s2) of
                       Inl e \<Rightarrow> Some (Inl e)
                     | Inr s3 \<Rightarrow> Some (Inr s3)))))"

text \<open>
  The partition method of \<^verbatim>\<open>compute_candidate_metacells\<close> is given the size hints
  \<^verbatim>\<open>target_comm_size\<close>, \<^verbatim>\<open>max_comm_size\<close>, \<^verbatim>\<open>min_comm_size\<close> and \<^verbatim>\<open>min_comm_nodes\<close>
  (the improver leaves the last one out). The cell sizes are cast to \<^verbatim>\<open>int32\<close>
  (\<^verbatim>\<open>astype('int32')\<close>). The factors are Python floats; they are modelled as rationals,
  with the exact product, ceiling and floor (the rounding of the floating-point product
  is not modelled). \<^verbatim>\<open>compress_indices\<close> (utilities/computation.py) is not among the
  sources: it is a parameter.
\<close>

type_synonym hinted_partition_method =
  "int \<Rightarrow> int option \<Rightarrow> int option \<Rightarrow> int option \<Rightarrow> partition_method"

definition compute_candidate_metacells ::
  "hinted_partition_method \<Rightarrow> (int list \<Rightarrow> int \<Rightarrow> int list) \<Rightarrow> (int list \<Rightarrow> int \<Rightarrow> int list)
   \<Rightarrow> (int list \<Rightarrow> int list)
   \<Rightarrow> int \<Rightarrow> int list option \<Rightarrow> rat option \<Rightarrow> rat option \<Rightarrow> int option \<Rightarrow> bool
   \<Rightarrow> (error + int list) option" where
  "compute_candidate_metacells method bin_pack bin_fill compress_indices
       target_metacell_size cell_sizes min_split_size_factor max_merge_size_factor
       min_metacell_cells cover =
     (if \<not> target_metacell_size > 0 then Some (Inl AssertionError)
      else if (case min_split_size_factor of Some factor \<Rightarrow> \<not> factor > 0 | None \<Rightarrow> False)
      then Some (Inl AssertionError)
      else
        (let max_metacell_size =
               map_option (\<lambda>factor. \<lceil>of_int target_metacell_size * factor\<rceil> - 1)
                          min_split_size_factor
         in if (case max_merge_size_factor of Some factor \<Rightarrow> \<not> factor > 0 | None \<Rightarrow> False)
            then Some (Inl AssertionError)
            else
              (let min_metacell_size =
                     map_option (\<lambda>factor. \<lfloor>of_int target_metacell_size * factor\<rfloor> + 1)
                                max_merge_size_factor
               in if (case (min_split_size_factor, max_merge_size_factor) of
                        (Some split_factor, Some merge_factor) \<Rightarrow>
                          \<not> merge_factor < split_factor
                          \<or> \<not> the min_metacell_size \<le> the max_metacell_size
                      | _ \<Rightarrow> False)
                  then Some (Inl AssertionError)
                  else
                    (let community_of_cells =
                           method target_metacell_size max_metacell_size min_metacell_size
                                  min_metacell_cells Whole_graph
                     in if max_metacell_size \<noteq> None \<or> min_metacell_size \<noteq> None then
                          (case refine (method target_metacell_size max_metacell_size
                                               min_metacell_size None)
                                       bin_pack bin_fill
                                       \<lparr> node_sizes = map_option (map wrap_int32) cell_sizes,
                                         target_comm_size = target_metacell_size,
                                         max_comm_size = max_metacell_size,
                                         min_comm_size = min_metacell_size,
                                         min_comm_nodes = min_metacell_cells,
                                         must_complete_cover = cover \<rparr>
                                       community_of_cells of
                             None \<Rightarrow> None
                           | Some (Inl e) \<Rightarrow> Some (Inl e)
                           | Some (Inr improver) \<Rightarrow>
                               Some (Inr (compress_indices (membership improver))))
                        else Some (Inr community_of_cells)))))"

subsection \<open>The entry of \<^verbatim>\<open>divide_and_conquer_pipeline\<close>\<close>

text \<open>
  Modelled from the spec: \<^verbatim>\<open>extract_clean_data\<close> is in pipeline/clean.py, which is not
  among the sources. It keeps the clean cells of the data, and its result is \<^verbatim>\<open>None\<close>
  when no cell is left (an empty set of entities).
\<close>

definition extract_clean_data :: "('cell \<Rightarrow> bool) \<Rightarrow> 'cell list \<Rightarrow> 'cell list option" where
  "extract_clean_data is_clean adata =
     (let cdata = filter is_clean adata in if cdata = [] then None else Some cdata)"

text \<open>
  \<^verbatim>\<open>divide_and_conquer_pipeline\<close> up to its first check; the rest of the pipeline (the
  rare gene modules, the computation of the metacells and their collection) is the
  parameter \<open>continue\<close>.
\<close>

definition divide_and_conquer_pipeline ::
  "('cell \<Rightarrow> bool) \<Rightarrow> ('cell list \<Rightarrow> error + 'result) \<Rightarrow> 'cell list \<Rightarrow> error + 'result" where
  "divide_and_conquer_pipeline is_clean continue adata =
     (case extract_clean_data is_clean adata of
        None \<Rightarrow> Inl ValueError
      | Some cdata \<Rightarrow> continue cdata)"

section \<open>Invariants of the improver\<close>

text \<open>
  The community that \<^verbatim>\<open>add\<close> builds for an index from a membership vector (the record
  appended by \<open>add_community\<close>).
\<close>

definition community_of :: "config \<Rightarrow> int list \<Rightarrow> int \<Rightarrow> community" where
  "community_of cfg vector community_index =
     (let nodes_mask = map (\<lambda>m. m = community_index) vector;
          total_nodes = count_true nodes_mask;
          few = (case min_comm_nodes cfg of
                   Some min_nodes \<Rightarrow> if total_nodes < min_nodes then min_nodes - total_nodes else 0
                 | None \<Rightarrow> 0);
          total_size = (case node_sizes cfg of
                          None \<Rightarrow> count_true nodes_mask
                        | Some sizes \<Rightarrow> sum_list (masked sizes nodes_mask));
          small = (case min_comm_size cfg of
                     Some min_size \<Rightarrow> if total_size < min_size then min_size - total_size else 0
                   | None \<Rightarrow> 0);
          large = (case max_comm_size cfg of
                     Some max_size \<Rightarrow> if total_size > max_size then total_size - max_size else 0
                   | None \<Rightarrow> 0)
      in \<lparr> c_index = community_index, c_nodes = total_nodes, c_size = total_size,
           c_mask = nodes_mask, c_too_few = few, c_too_small = small, c_too_large = large,
           c_monolithic = False \<rparr>)"

text \<open>
  A community of the list is up to date with a membership vector when, but for its
  monolithic flag, it is the community \<^verbatim>\<open>add\<close> would build for its index now.
\<close>

definition community_ok :: "config \<Rightarrow> int list \<Rightarrow> community \<Rightarrow> bool" where
  "community_ok cfg vector c = (c \<lparr> c_monolithic := False \<rparr> = community_of cfg vector (c_index c))"

text \<open>The sum of the sizes of all the nodes (each node counts 1 without node sizes).\<close>

definition total_size :: "config \<Rightarrow> int list \<Rightarrow> int" where
  "total_size cfg vector =
     (case node_sizes cfg of None \<Rightarrow> int (length vector) | Some sizes \<Rightarrow> sum_list sizes)"

definition sizes_ok :: "config \<Rightarrow> int list \<Rightarrow> bool" where
  "sizes_ok cfg vector =
     (case node_sizes cfg of None \<Rightarrow> True | Some sizes \<Rightarrow> length sizes = length vector)"

text \<open>
  The invariant of the improver, also in the middle of an operation: every community of
  the list is up to date and has a distinct index below the next unused one; the totals
  are the sums over the list; and every node belongs to a community of the list, or to a
  community just removed (the \<open>orphans\<close>), or to one of the next \<open>pending\<close> indices,
  whose communities \<^verbatim>\<open>add\<close> is about to build. Between two operations there are no
  orphans and nothing is pending.
\<close>

definition consistent :: "config \<Rightarrow> int set \<Rightarrow> int \<Rightarrow> improver \<Rightarrow> bool" where
  "consistent cfg orphans pending s =
     (sizes_ok cfg (membership s)
      \<and> (\<forall>c \<in> set (communities s).
            community_ok cfg (membership s) c \<and> c_index c < next_community_index s)
      \<and> distinct (map c_index (communities s))
      \<and> (\<forall>v \<in> set (membership s).
            v \<in> c_index ` set (communities s) \<or> v \<in> orphans
            \<or> (next_community_index s \<le> v \<and> v < next_community_index s + pending))
      \<and> (\<forall>u \<in> orphans. u \<notin> c_index ` set (communities s) \<and> u < next_community_index s)
      \<and> too_few s = sum_list (map c_too_few (communities s))
      \<and> too_small s = sum_list (map c_too_small (communities s))
      \<and> too_large s = sum_list (map c_too_large (communities s)))"

text \<open>
  What the improver relies on from the partition method: asked about a graph of \<open>n\<close>
  nodes it returns \<open>n\<close> community indices, none negative. The same for the bin functions.
\<close>

definition partition_ok :: "partition_method \<Rightarrow> bool" where
  "partition_ok partition_method =
     ((\<forall>masks sizes.
         length (partition_method (Condensed_graph masks sizes)) = length masks
         \<and> (\<forall>v \<in> set (partition_method (Condensed_graph masks sizes)). 0 \<le> v))
      \<and> (\<forall>nodes_mask sizes.
         int (length (partition_method (Subgraph nodes_mask sizes))) = count_true nodes_mask
         \<and> (\<forall>v \<in> set (partition_method (Subgraph nodes_mask sizes)). 0 \<le> v)))"

definition bins_ok :: "(int list \<Rightarrow> int \<Rightarrow> int list) \<Rightarrow> bool" where
  "bins_ok bin = (\<forall>values limit. length (bin values limit) = length values
                     \<and> (\<forall>b \<in> set (bin values limit). 0 \<le> b))"

definition compliant :: "community \<Rightarrow> bool" where
  "compliant c = (c_too_small c = 0 \<and> c_too_few c = 0)"

text \<open>
  The states of one improver: the state built by \<^verbatim>\<open>__init__\<close> from the membership
  vector, and every state that an operation returns from such a state.
\<close>

inductive reachable ::
  "partition_method \<Rightarrow> (int list \<Rightarrow> int \<Rightarrow> int list) \<Rightarrow> (int list \<Rightarrow> int \<Rightarrow> int list)
   \<Rightarrow> config \<Rightarrow> int list \<Rightarrow> improver \<Rightarrow> bool"
  for partition_method bin_pack bin_fill cfg membership_vector where
    constructed:
      "Improver_init cfg membership_vector = Inr s
       \<Longrightarrow> reachable partition_method bin_pack bin_fill cfg membership_vector s"
  | merged:
      "reachable partition_method bin_pack bin_fill cfg membership_vector s
       \<Longrightarrow> merge_few_or_small partition_method cfg s = Inr (s', did_improve)
       \<Longrightarrow> reachable partition_method bin_pack bin_fill cfg membership_vector s'"
  | split:
      "reachable partition_method bin_pack bin_fill cfg membership_vector s
       \<Longrightarrow> split_large partition_method cfg s = Some (Inr (s', did_split))
       \<Longrightarrow> reachable partition_method bin_pack bin_fill cfg membership_vector s'"
  | improved:
      "reachable partition_method bin_pack bin_fill cfg membership_vector s
       \<Longrightarrow> improve partition_method cfg s = Some (Inr s')
       \<Longrightarrow> reachable partition_method bin_pack bin_fill cfg membership_vector s'"
  | packed:
      "reachable partition_method bin_pack bin_fill cfg membership_vector s
       \<Longrightarrow> pack bin_pack cfg s = Inr s'
       \<Longrightarrow> reachable partition_method bin_pack bin_fill cfg membership_vector s'"
  | filled:
      "reachable partition_method bin_pack bin_fill cfg membership_vector s
       \<Longrightarrow> fill bin_fill cfg s = Inr s'
       \<Longrightarrow> reachable partition_method bin_pack bin_fill cfg membership_vector s'"

text \<open>
  The history of the split attempts (the indices of the communities whose subgraph was
  given to the partition method by \<^verbatim>\<open>split_large\<close>, in order) agrees with the flags: no
  index was tried twice, the indices of the list are distinct and below the next unused
  one, as are the tried ones, and a community of the list is flagged monolithic exactly
  when its index was tried.
\<close>

definition attempts_ok :: "improver \<Rightarrow> bool" where
  "attempts_ok s =
     (distinct (split_attempts s) \<and> distinct (map c_index (communities s))
      \<and> (\<forall>c \<in> set (communities s). c_index c < next_community_index s)
      \<and> (\<forall>i \<in> set (split_attempts s). i < next_community_index s)
      \<and> (\<forall>c \<in> set (communities s).
            c_monolithic c \<longleftrightarrow> c_index c \<in> set (split_attempts s)))"

text \<open>
  A partition method numbers the communities it returns from 0 without gaps: with an
  index it returns every smaller non-negative index too, so that each of the
  \<^verbatim>\<open>np.max(membership) + 1\<close> communities the improver adds has a node.
\<close>

definition partition_dense :: "partition_method \<Rightarrow> bool" where
  "partition_dense partition_method =
     (\<forall>request. \<forall>i \<in> set (partition_method request).
        \<forall>j. 0 \<le> j \<and> j \<le> i \<longrightarrow> j \<in> set (partition_method request))"

text \<open>
  The number of splits that the communities of the list still allow: a community of \<open>n\<close>
  nodes can be split \<open>n - 1\<close> times into communities that have a node.
\<close>

definition split_potential :: "improver \<Rightarrow> int" where
  "split_potential s =
     sum_list (map (\<lambda>c. if c_nodes c \<le> 1 then 0 else c_nodes c - 1) (communities s))"

text \<open>
  The answer of the partition method for the subgraph of a community, as
  \<^verbatim>\<open>split_large\<close> asks for it; and the invariant that ties the flag to it: for every
  flagged community of the list the answer is one community.
\<close>

definition split_answer :: "partition_method \<Rightarrow> config \<Rightarrow> community \<Rightarrow> int list" where
  "split_answer partition_method cfg c =
     partition_method (Subgraph (c_mask c)
       (map_option (\<lambda>sizes. masked sizes (c_mask c)) (node_sizes cfg)))"

definition flags_ok :: "partition_method \<Rightarrow> config \<Rightarrow> improver \<Rightarrow> bool" where
  "flags_ok partition_method cfg s =
     (\<forall>c \<in> set (communities s).
        c_monolithic c \<longrightarrow> np_max (split_answer partition_method cfg c) = Inr 0)"

section \<open>Examples\<close>

text \<open>
  A configuration with target size 3, maximal size 5, minimal size 4 and at least one
  node per community, over nodes of size 1; and a second one with minimal size 4 and at
  least two nodes per community, without a maximal size.
\<close>

definition example_config :: config where
  "example_config = \<lparr> node_sizes = None, target_comm_size = 3, max_comm_size = Some 5,
                       min_comm_size = Some 4, min_comm_nodes = Some 1,
                       must_complete_cover = False \<rparr>"

definition small_config :: config where
  "small_config = \<lparr> node_sizes = None, target_comm_size = 3, max_comm_size = None,
                     min_comm_size = Some 4, min_comm_nodes = Some 2,
                     must_complete_cover = False \<rparr>"

text \<open>
  A partition method that puts all the nodes of a condensed graph into one community and
  cuts a subgraph into two halves (a subgraph of one node stays one community); and bin
  functions that put everything into one bin.
\<close>

definition example_method :: partition_method where
  "example_method request =
     (case request of
        Whole_graph \<Rightarrow> []
      | Condensed_graph masks sizes \<Rightarrow> map (\<lambda>m. 0) masks
      | Subgraph nodes_mask sizes \<Rightarrow>
          map (\<lambda>i. if 2 * int i < count_true nodes_mask then 0 else 1)
              [0 ..< nat (count_true nodes_mask)])"

definition example_bins :: "int list \<Rightarrow> int \<Rightarrow> int list" where
  "example_bins values limit = map (\<lambda>v. 0) values"

text \<open>
  The state of the improver of \<open>example_config\<close> on the membership \<open>[0, 0, 0, 1, 1, 1]\<close>
  after \<^verbatim>\<open>improve\<close> (the two communities of size 3 are merged, the community of size 6
  is split into two of size 3, and these are merged again); \<^verbatim>\<open>pack\<close> and \<^verbatim>\<open>fill\<close>
  leave it as it is.
\<close>

definition example_improved :: improver where
  "example_improved =
     \<lparr> membership = [5, 5, 5, 5, 5, 5],
       communities =
         [\<lparr> c_index = 5, c_nodes = 6, c_size = 6,
            c_mask = [True, True, True, True, True, True],
            c_too_few = 0, c_too_small = 0, c_too_large = 1, c_monolithic = False \<rparr>],
       too_few = 0, too_small = 0, too_large = 1,
       next_community_index = 6, split_attempts = [2] \<rparr>"

text \<open>
  The state of the improver of \<open>small_config\<close> on the membership \<open>[0]\<close> after
  \<^verbatim>\<open>improve\<close>, \<^verbatim>\<open>pack\<close> and \<^verbatim>\<open>fill\<close>.
\<close>

definition small_filled :: improver where
  "small_filled =
     \<lparr> membership = [2],
       communities =
         [\<lparr> c_index = 2, c_nodes = 1, c_size = 1, c_mask = [True],
            c_too_few = 1, c_too_small = 3, c_too_large = 0, c_monolithic = False \<rparr>],
       too_few = 1, too_small = 3, too_large = 0,
       next_community_index = 3, split_attempts = [] \<rparr>"

text \<open>
  A configuration with one node of size 6 and maximal size 5: the community of the node
  is too large, and no partition method can split it.
\<close>

definition heavy_config :: config where
  "heavy_config = \<lparr> node_sizes = Some [6], target_comm_size = 3, max_comm_size = Some 5,
                     min_comm_size = None, min_comm_nodes = None,
                     must_complete_cover = False \<rparr>"

text \<open>
  The state of the improver of \<open>heavy_config\<close> on the membership \<open>[0]\<close> after its
  construction, and after \<^verbatim>\<open>split_large\<close>.
\<close>

definition heavy_initial :: improver where
  "heavy_initial =
     \<lparr> membership = [0],
       communities =
         [\<lparr> c_index = 0, c_nodes = 1, c_size = 6, c_mask = [True],
            c_too_few = 0, c_too_small = 0, c_too_large = 1, c_monolithic = False \<rparr>],
       too_few = 0, too_small = 0, too_large = 1,
       next_community_index = 1, split_attempts = [] \<rparr>"

definition heavy_flagged :: improver where
  "heavy_flagged =
     \<lparr> membership = [0],
       communities =
         [\<lparr> c_index = 0, c_nodes = 1, c_size = 6, c_mask = [True],
            c_too_few = 0, c_too_small = 0, c_too_large = 1, c_monolithic = True \<rparr>],
       too_few = 0, too_small = 0, too_large = 1,
       next_community_index = 1, split_attempts = [0] \<rparr>"

text \<open>
  A partition method that leaves every community of a condensed graph on its own and
  returns a subgraph as one community, and a bin function that puts every value into a
  bin of its own.
\<close>

definition separate_method :: partition_method where
  "separate_method request =
     (case request of
        Whole_graph \<Rightarrow> []
      | Condensed_graph masks sizes \<Rightarrow> map int [0 ..< length masks]
      | Subgraph nodes_mask sizes \<Rightarrow> map (\<lambda>i. 0) [0 ..< nat (count_true nodes_mask)])"

definition separate_bins :: "int list \<Rightarrow> int \<Rightarrow> int list" where
  "separate_bins values limit = map int [0 ..< length values]"

text \<open>
  A configuration with two nodes of size 3, maximal size 5, minimal size 1 and at least
  two nodes per community; and the state of its improver on the membership \<open>[0, 1]\<close>
  after \<^verbatim>\<open>improve\<close> (which changes nothing but the indices), \<^verbatim>\<open>pack\<close> with separate
  bins (the same) and \<^verbatim>\<open>fill\<close> with one bin, which merges the two communities.
\<close>

definition pair_config :: config where
  "pair_config = \<lparr> node_sizes = Some [3, 3], target_comm_size = 3, max_comm_size = Some 5,
                    min_comm_size = Some 1, min_comm_nodes = Some 2,
                    must_complete_cover = False \<rparr>"

definition pair_filled :: improver where
  "pair_filled =
     \<lparr> membership = [6, 6],
       communities =
         [\<lparr> c_index = 6, c_nodes = 2, c_size = 6, c_mask = [True, True],
            c_too_few = 0, c_too_small = 0, c_too_large = 1, c_monolithic = False \<rparr>],
       too_few = 0, too_small = 0, too_large = 1,
       next_community_index = 7, split_attempts = [] \<rparr>"

text \<open>
  The state of the improver of \<open>example_config\<close> on the membership \<open>[0, 0, 0, 1, 1, 1]\<close>
  after its construction.
\<close>

definition example_initial :: improver where
  "example_initial =
     \<lparr> membership = [0, 0, 0, 1, 1, 1],
       communities =
         [\<lparr> c_index = 0, c_nodes = 3, c_size = 3,
            c_mask = [True, True, True, False, False, False],
            c_too_few = 0, c_too_small = 1, c_too_large = 0, c_monolithic = False \<rparr>,
          \<lparr> c_index = 1, c_nodes = 3, c_size = 3,
            c_mask = [False, False, False, True, True, True],
            c_too_few = 0, c_too_small = 1, c_too_large = 0, c_monolithic = False \<rparr>],
       too_few = 0, too_small = 2, too_large = 0,
       next_community_index = 2, split_attempts = [] \<rparr>"



text \<open>
  A partition method that returns one community index per node but leaves the index 0
  unused: every node of the graph it is asked about goes to the community 1.
\<close>

definition gap_method :: partition_method where
  "gap_method request =
     (case request of
        Whole_graph \<Rightarrow> []
      | Condensed_graph masks sizes \<Rightarrow> map (\<lambda>m. 1) masks
      | Subgraph nodes_mask sizes \<Rightarrow> map (\<lambda>i. 1) [0 ..< nat (count_true nodes_mask)])"




text \<open>
  The states of the improver of \<open>heavy_config\<close> on the membership \<open>[0]\<close> during a
  \<^verbatim>\<open>split_large\<close> with \<open>gap_method\<close>: the partition method answers \<open>[1]\<close> for the
  subgraph of the one node, which counts as two communities, so the community of the
  node is removed and added again, unflagged, behind an empty community for the unused
  index. \<open>gap_state n\<close> is the state after \<open>n\<close> such rounds.
\<close>

definition gap_state :: "nat \<Rightarrow> improver" where
  "gap_state n =
     \<lparr> membership = [2 * int n],
       communities =
         map (\<lambda>j. \<lparr> c_index = 2 * int j + 1, c_nodes = 0, c_size = 0, c_mask = [False],
                     c_too_few = 0, c_too_small = 0, c_too_large = 0,
                     c_monolithic = False \<rparr>) [0 ..< n]
         @ [\<lparr> c_index = 2 * int n, c_nodes = 1, c_size = 6, c_mask = [True],
              c_too_few = 0, c_too_small = 0, c_too_large = 1, c_monolithic = False \<rparr>],
       too_few = 0, too_small = 0, too_large = 1,
       next_community_index = 2 * int n + 1,
       split_attempts = map (\<lambda>j. 2 * int j) [0 ..< n] \<rparr>"

text \<open>
  A partition method that leaves every community of a condensed graph on its own and
  cuts a subgraph into two halves (a subgraph of one node stays one community).
\<close>

definition halving_method :: partition_method where
  "halving_method request =
     (case request of
        Whole_graph \<Rightarrow> []
      | Condensed_graph masks sizes \<Rightarrow> map int [0 ..< length masks]
      | Subgraph nodes_mask sizes \<Rightarrow>
          map (\<lambda>i. if 2 * int i < count_true nodes_mask then 0 else 1)
              [0 ..< nat (count_true nodes_mask)])"

text \<open>
  A configuration with six nodes of sizes 6, 1, 2, 2, 2 and 2, maximal size 5, minimal
  size 1 and at least two nodes per community; and the states of its improver on the
  membership \<open>[0, 1, 2, 2, 2, 2]\<close> during \<^verbatim>\<open>improve\<close> with \<open>halving_method\<close>: after
  the construction; after the first \<^verbatim>\<open>merge_few_or_small\<close> (the communities of node 0
  and of node 1 are added again as 3 and 4); after the first \<^verbatim>\<open>split_large\<close> (the
  community of the last four nodes is split, the community 3 of node 0 is flagged);
  after the next \<^verbatim>\<open>merge_few_or_small\<close> (the communities of node 0 and of node 1 are
  added again as 7 and 8, unflagged); and after the last \<^verbatim>\<open>split_large\<close> (the community
  7 of node 0 is flagged).
\<close>

definition retry_config :: config where
  "retry_config = \<lparr> node_sizes = Some [6, 1, 2, 2, 2, 2], target_comm_size = 3,
                     max_comm_size = Some 5, min_comm_size = Some 1, min_comm_nodes = Some 2,
                     must_complete_cover = False \<rparr>"

definition retry_initial :: improver where
  "retry_initial =
     \<lparr> membership = [0, 1, 2, 2, 2, 2],
       communities =
         [\<lparr> c_index = 0, c_nodes = 1, c_size = 6,
            c_mask = [True, False, False, False, False, False],
            c_too_few = 1, c_too_small = 0, c_too_large = 1, c_monolithic = False \<rparr>,
          \<lparr> c_index = 1, c_nodes = 1, c_size = 1,
            c_mask = [False, True, False, False, False, False],
            c_too_few = 1, c_too_small = 0, c_too_large = 0, c_monolithic = False \<rparr>,
          \<lparr> c_index = 2, c_nodes = 4, c_size = 8,
            c_mask = [False, False, True, True, True, True],
            c_too_few = 0, c_too_small = 0, c_too_large = 3, c_monolithic = False \<rparr>],
       too_few = 2, too_small = 0, too_large = 4,
       next_community_index = 3, split_attempts = [] \<rparr>"

definition retry_start :: improver where
  "retry_start =
     \<lparr> membership = [3, 4, 2, 2, 2, 2],
       communities =
         [\<lparr> c_index = 2, c_nodes = 4, c_size = 8,
            c_mask = [False, False, True, True, True, True],
            c_too_few = 0, c_too_small = 0, c_too_large = 3, c_monolithic = False \<rparr>,
          \<lparr> c_index = 3, c_nodes = 1, c_size = 6,
            c_mask = [True, False, False, False, False, False],
            c_too_few = 1, c_too_small = 0, c_too_large = 1, c_monolithic = False \<rparr>,
          \<lparr> c_index = 4, c_nodes = 1, c_size = 1,
            c_mask = [False, True, False, False, False, False],
            c_too_few = 1, c_too_small = 0, c_too_large = 0, c_monolithic = False \<rparr>],
       too_few = 2, too_small = 0, too_large = 4,
       next_community_index = 5, split_attempts = [] \<rparr>"

definition retry_flagged :: improver where
  "retry_flagged =
     \<lparr> membership = [3, 4, 5, 5, 6, 6],
       communities =
         [\<lparr> c_index = 3, c_nodes = 1, c_size = 6,
            c_mask = [True, False, False, False, False, False],
            c_too_few = 1, c_too_small = 0, c_too_large = 1, c_monolithic = True \<rparr>,
          \<lparr> c_index = 4, c_nodes = 1, c_size = 1,
            c_mask = [False, True, False, False, False, False],
            c_too_few = 1, c_too_small = 0, c_too_large = 0, c_monolithic = False \<rparr>,
          \<lparr> c_index = 5, c_nodes = 2, c_size = 4,
            c_mask = [False, False, True, True, False, False],
            c_too_few = 0, c_too_small = 0, c_too_large = 0, c_monolithic = False \<rparr>,
          \<lparr> c_index = 6, c_nodes = 2, c_size = 4,
            c_mask = [False, False, False, False, True, True],
            c_too_few = 0, c_too_small = 0, c_too_large = 0, c_monolithic = False \<rparr>],
       too_few = 2, too_small = 0, too_large = 1,
       next_community_index = 7, split_attempts = [2, 3] \<rparr>"

definition retry_merged :: improver where
  "retry_merged =
     \<lparr> membership = [7, 8, 5, 5, 6, 6],
       communities =
         [\<lparr> c_index = 5, c_nodes = 2, c_size = 4,
            c_mask = [False, False, True, True, False, False],
            c_too_few = 0, c_too_small = 0, c_too_large = 0, c_monolithic = False \<rparr>,
          \<lparr> c_index = 6, c_nodes = 2, c_size = 4,
            c_mask = [False, False, False, False, True, True],
            c_too_few = 0, c_too_small = 0, c_too_large = 0, c_monolithic = False \<rparr>,
          \<lparr> c_index = 7, c_nodes = 1, c_size = 6,
            c_mask = [True, False, False, False, False, False],
            c_too_few = 1, c_too_small = 0, c_too_large = 1, c_monolithic = False \<rparr>,
          \<lparr> c_index = 8, c_nodes = 1, c_size = 1,
            c_mask = [False, True, False, False, False, False],
            c_too_few = 1, c_too_small = 0, c_too_large = 0, c_monolithic = False \<rparr>],
       too_few = 2, too_small = 0, too_large = 1,
       next_community_index = 9, split_attempts = [2, 3] \<rparr>"

definition retry_final :: improver where
  "retry_final =
     \<lparr> membership = [7, 8, 5, 5, 6, 6],
       communities =
         [\<lparr> c_index = 5, c_nodes = 2, c_size = 4,
            c_mask = [False, False, True, True, False, False],
            c_too_few = 0, c_too_small = 0, c_too_large = 0, c_monolithic = False \<rparr>,
          \<lparr> c_index = 6, c_nodes = 2, c_size = 4,
            c_mask = [False, False, False, False, True, True],
            c_too_few = 0, c_too_small = 0, c_too_large = 0, c_monolithic = False \<rparr>,
          \<lparr> c_index = 7, c_nodes = 1, c_size = 6,
            c_mask = [True, False, False, False, False, False],
            c_too_few = 1, c_too_small = 0, c_too_large = 1, c_monolithic = True \<rparr>,
          \<lparr> c_index = 8, c_nodes = 1, c_size = 1,
            c_mask = [False, True, False, False, False, False],
            c_too_few = 1, c_too_small = 0, c_too_large = 0, c_monolithic = False \<rparr>],
       too_few = 2, too_small = 0, too_large = 1,
       next_community_index = 9, split_attempts = [2, 3, 7] \<rparr>"

section \<open>Properties of the collection of results\<close>

lemma set_metacell_length:
  "set_metacell acc rows = Inr acc' \<Longrightarrow> length acc' = length acc"
  by (induction acc rows arbitrary: acc' rule: set_metacell.induct) (auto split: if_splits)

lemma set_metacell_other:
  "set_metacell acc rows = Inr acc' \<Longrightarrow> i \<notin> fst ` set rows \<Longrightarrow> acc' ! i = acc ! i"
  by (induction acc rows arbitrary: acc' rule: set_metacell.induct)
     (auto split: if_splits)

lemma set_metacell_written:
  "set_metacell acc rows = Inr acc' \<Longrightarrow> distinct (map fst rows) \<Longrightarrow> (i, m) \<in> set rows
   \<Longrightarrow> acc' ! i = m"
proof (induction acc rows arbitrary: acc' rule: set_metacell.induct)
  case (1 acc)
  then show ?case by simp
next
  case (2 acc cell_index metacell rows)
  from "2.prems"(1) have inb: "cell_index < length acc"
    and rest: "set_metacell (acc[cell_index := metacell]) rows = Inr acc'"
    by (auto split: if_splits)
  show ?case
  proof (cases "(i, m) \<in> set rows")
    case True
    with "2.IH" inb rest "2.prems"(2) show ?thesis by simp
  next
    case False
    with "2.prems"(3) have eq: "i = cell_index" "m = metacell" by auto
    from "2.prems"(2) have "cell_index \<notin> fst ` set rows" by simp
    with set_metacell_other [OF rest] have "acc' ! cell_index = (acc[cell_index := metacell]) ! cell_index"
      by blast
    with inb eq show ?thesis by simp
  qed
qed

lemma offset_metacells_fst: "map fst (offset_metacells frame k) = map fst frame"
  by (induction frame) (auto simp: offset_metacells_def)

lemma offset_metacells_mem:
  "(i, m) \<in> set frame
   \<Longrightarrow> (i, if m \<ge> 0 then wrap_int32 (m + k) else m) \<in> set (offset_metacells frame k)"
  by (force simp: offset_metacells_def)

lemma map_of_update_same: "map_of (AList.update k v al) k = Some v"
  by (simp add: update_conv')

lemma written_metacell:
  assumes "set_metacell acc (offset_metacells frame k) = Inr acc'"
    and "distinct (map fst frame)" and "(cell, metacell) \<in> set frame"
  shows "map_of (o_data (set_o_data data name acc')) name = Some acc'
         \<and> acc' ! cell = (if metacell \<ge> 0 then wrap_int32 (metacell + k) else metacell)"
proof -
  from assms(2) have "distinct (map fst (offset_metacells frame k))"
    by (simp add: offset_metacells_fst)
  from set_metacell_written [OF assms(1) this offset_metacells_mem [OF assms(3)]]
  show ?thesis by (simp add: set_o_data_def map_of_update_same)
qed


subsection \<open>C1: global metacell indices across piles\<close>

text \<open>
  C1 (the code departs from the claim). The claim: the partial results are collected in
  pile-index order, each pile's local metacells being offset by a running counter (the
  largest global index so far plus one), so that cells of different piles never share a
  global metacell. In the source \<^verbatim>\<open>_collect_pile_results\<close> computes and returns the new
  counter, but \<^verbatim>\<open>_collect_piles_results\<close> drops the returned value: every pile is
  offset by 0. Two piles of two cells each, each pile with the local metacells 0 and 1,
  collected in the preliminary phase:
  cell 0 (pile 0) and cell 2 (pile 1) both end in the global metacell 0, cells 1 and 3
  both in 1, and the count returned (used to offset the outliers' metacells) is 0.
\<close>

theorem collect_piles_results_drops_count:
  "collect_piles_results
     \<lparr> m_data = [(''pre_directs'', 0), (''final_directs'', 0)],
       o_data = [(''pre_metacell'', [-1, -1, -1, -1])] \<rparr>
     [[(0, 0), (1, 1)], [(2, 0), (3, 1)]] ''preliminary''
   = Inr (\<lparr> m_data = [(''pre_directs'', 2), (''final_directs'', 0)],
            o_data = [(''pre_metacell'', [0, 1, 0, 1])] \<rparr>, 0)"
  by (simp add: collect_piles_results_def collect_pile_results_def offset_metacells_def
        get_m_data_def get_o_data_def set_m_data_def set_o_data_def prefix_name_def
        wrap_int32_def)

subsection \<open>C6: negative metacells are never offset\<close>

text \<open>
  C6. When the frame of a pile (\<^verbatim>\<open>_collect_pile_results\<close>) or of the outliers data
  (\<^verbatim>\<open>_collect_outliers_results\<close>) is written into the complete data, a row with a
  negative metacell (an outlier) is written unchanged, and only a row with a
  non-negative metacell is offset: it is written as the metacell plus the count, as an
  \<^verbatim>\<open>int32\<close> vector keeps it (the sum itself when it is below \<open>2 ^ 31\<close>). The vector
  written is the annotation \<^verbatim>\<open>pre_metacell\<close> in the preliminary phase and \<^verbatim>\<open>metacell\<close>
  in the final phase. The rows of a frame are the cells of one slice, so their cell
  indices are distinct. In the final phase the counter is looked up under the name
  \<^verbatim>\<open>finaldirects\<close>: when the metadata has no such name, \<^verbatim>\<open>KeyError\<close> is raised before
  anything is written.
\<close>

theorem negative_metacells_not_offset:
  "(collect_pile_results cdata is_final frame metacells_count = Inr (pile_result, new_count)
      \<and> distinct (map fst frame) \<and> (cell, metacell) \<in> set frame
    \<longrightarrow> map_option (\<lambda>metacell_of_cells. metacell_of_cells ! cell)
          (map_of (o_data pile_result) (prefix_name is_final ''metacell'' []))
        = Some (if metacell \<ge> 0 then wrap_int32 (metacell + metacells_count) else metacell))
   \<and> (collect_outliers_results cdata odata frame phase metacells_count = Inr outliers_result
      \<and> distinct (map fst frame) \<and> (cell, metacell) \<in> set frame
    \<longrightarrow> map_option (\<lambda>metacell_of_cells. metacell_of_cells ! cell)
          (map_of (o_data outliers_result) (prefix_name (phase = ''final'') ''metacell'' []))
        = Some (if metacell \<ge> 0 then wrap_int32 (metacell + metacells_count) else metacell))
   \<and> (0 \<le> metacell + metacells_count \<and> metacell + metacells_count < 2 ^ 31
    \<longrightarrow> wrap_int32 (metacell + metacells_count) = metacell + metacells_count)
   \<and> (map_of (m_data cdata) ''finaldirects'' = None
    \<longrightarrow> collect_pile_results cdata True frame metacells_count = Inl KeyError
        \<and> collect_outliers_results cdata odata frame ''final'' metacells_count = Inl KeyError)"
proof (intro conjI impI)
  assume a: "collect_pile_results cdata is_final frame metacells_count = Inr (pile_result, new_count)
      \<and> distinct (map fst frame) \<and> (cell, metacell) \<in> set frame"
  then obtain data acc acc' where
    "set_metacell acc (offset_metacells frame metacells_count) = Inr acc'"
    and "pile_result = set_o_data data (prefix_name is_final ''metacell'' []) acc'"
    by (auto simp: collect_pile_results_def Let_def split: sum.splits)
  with written_metacell [of acc frame metacells_count acc' cell metacell data
      "prefix_name is_final ''metacell'' []"] a
  show "map_option (\<lambda>metacell_of_cells. metacell_of_cells ! cell)
          (map_of (o_data pile_result) (prefix_name is_final ''metacell'' []))
        = Some (if metacell \<ge> 0 then wrap_int32 (metacell + metacells_count) else metacell)"
    by simp
next
  assume a: "collect_outliers_results cdata odata frame phase metacells_count = Inr outliers_result
      \<and> distinct (map fst frame) \<and> (cell, metacell) \<in> set frame"
  then obtain data acc acc' where
    "set_metacell acc (offset_metacells frame metacells_count) = Inr acc'"
    and "outliers_result = set_o_data data (prefix_name (phase = ''final'') ''metacell'' []) acc'"
    by (auto simp: collect_outliers_results_def Let_def split: sum.splits if_splits)
  with written_metacell [of acc frame metacells_count acc' cell metacell data
      "prefix_name (phase = ''final'') ''metacell'' []"] a
  show "map_option (\<lambda>metacell_of_cells. metacell_of_cells ! cell)
          (map_of (o_data outliers_result) (prefix_name (phase = ''final'') ''metacell'' []))
        = Some (if metacell \<ge> 0 then wrap_int32 (metacell + metacells_count) else metacell)"
    by simp
next
  assume "0 \<le> metacell + metacells_count \<and> metacell + metacells_count < 2 ^ 31"
  then show "wrap_int32 (metacell + metacells_count) = metacell + metacells_count"
    by (simp add: wrap_int32_def)
next
  assume "map_of (m_data cdata) ''finaldirects'' = None"
  then show "collect_pile_results cdata True frame metacells_count = Inl KeyError"
    by (simp add: collect_pile_results_def get_m_data_def prefix_name_def)
next
  assume "map_of (m_data cdata) ''finaldirects'' = None"
  then show "collect_outliers_results cdata odata frame ''final'' metacells_count = Inl KeyError"
    by (simp add: collect_outliers_results_def get_m_data_def prefix_name_def)
qed

text \<open>
  The theorem at a pile of three cells collected with the count 5 in the preliminary
  phase: the outlier (cell 2) stays at -1, and cell 3 is written as 6; the same for an
  outliers frame.
\<close>

theorem negative_metacells_not_offset_witness:
  "collect_pile_results
     \<lparr> m_data = [(''pre_directs'', 0), (''final_directs'', 0)],
       o_data = [(''pre_metacell'', [-1, -1, -1, -1])] \<rparr>
     False [(0, 0), (2, -1), (3, 1)] 5
   = Inr (\<lparr> m_data = [(''pre_directs'', 1), (''final_directs'', 0)],
            o_data = [(''pre_metacell'', [5, -1, -1, 6])] \<rparr>, 7)
   \<and> collect_outliers_results
       \<lparr> m_data = [(''pre_directs'', 0), (''final_directs'', 0)],
         o_data = [(''pre_metacell'', [-1, -1, -1, -1])] \<rparr>
       \<lparr> m_data = [(''pre_directs'', 2), (''final_directs'', 1)], o_data = [] \<rparr>
       [(0, 0), (2, -1), (3, 1)] ''preliminary'' 5
     = Inr \<lparr> m_data = [(''pre_directs'', 3), (''final_directs'', 0)],
             o_data = [(''pre_metacell'', [5, -1, -1, 6])] \<rparr>
   \<and> distinct (map fst [(0::nat, 0::int), (2, -1), (3, 1)])
   \<and> (2, -1) \<in> set [(0::nat, 0::int), (2, -1), (3, 1)]
   \<and> map_option (\<lambda>metacell_of_cells. metacell_of_cells ! 2)
        (map_of [(''pre_metacell'', [5, -1, -1, 6 :: int])] ''pre_metacell'') = Some (-1)
   \<and> (0::int) \<le> 1 + 5 \<and> (1::int) + 5 < 2 ^ 31 \<and> wrap_int32 (1 + 5) = 6
   \<and> map_of [(''pre_directs'', 0 :: int), (''final_directs'', 0)] ''finaldirects'' = None
   \<and> collect_pile_results
       \<lparr> m_data = [(''pre_directs'', 0), (''final_directs'', 0)],
         o_data = [(''pre_metacell'', [-1, -1, -1, -1])] \<rparr>
       True [(0, 0), (2, -1), (3, 1)] 5
     = Inl KeyError"
proof -
  let ?cdata = "\<lparr> m_data = [(''pre_directs'', 0), (''final_directs'', 0)],
                  o_data = [(''pre_metacell'', [-1, -1, -1, -1])] \<rparr>"
  let ?odata = "\<lparr> m_data = [(''pre_directs'', 2), (''final_directs'', 1)], o_data = [] \<rparr>"
  let ?frame = "[(0::nat, 0::int), (2, -1), (3, 1)]"
  let ?pile = "\<lparr> m_data = [(''pre_directs'', 1), (''final_directs'', 0)],
                 o_data = [(''pre_metacell'', [5, -1, -1, 6])] \<rparr>"
  let ?outliers = "\<lparr> m_data = [(''pre_directs'', 3), (''final_directs'', 0)],
                     o_data = [(''pre_metacell'', [5, -1, -1, 6])] \<rparr>"
  have pile: "collect_pile_results ?cdata False ?frame 5 = Inr (?pile, 7)"
    by (simp add: collect_pile_results_def offset_metacells_def get_m_data_def get_o_data_def
          set_m_data_def set_o_data_def prefix_name_def wrap_int32_def)
  have outliers: "collect_outliers_results ?cdata ?odata ?frame ''preliminary'' 5 = Inr ?outliers"
    by (simp add: collect_outliers_results_def offset_metacells_def get_m_data_def
          get_o_data_def set_m_data_def set_o_data_def prefix_name_def wrap_int32_def)
  note main = negative_metacells_not_offset
    [of ?cdata False ?frame 5 ?pile 7 2 "-1" ?odata "''preliminary''" ?outliers]
  from main pile
  have "map_option (\<lambda>metacell_of_cells. metacell_of_cells ! 2)
          (map_of (o_data ?pile) (prefix_name False ''metacell'' [])) = Some (-1)"
    by simp
  then have written: "map_option (\<lambda>metacell_of_cells. metacell_of_cells ! 2)
        (map_of [(''pre_metacell'', [5, -1, -1, 6 :: int])] ''pre_metacell'') = Some (-1)"
    by (simp add: prefix_name_def)
  from negative_metacells_not_offset
    [of ?cdata False ?frame 5 ?pile 7 3 1 ?odata "''preliminary''" ?outliers]
  have "wrap_int32 (1 + 5) = 6" by simp
  moreover from main
  have "collect_pile_results ?cdata True ?frame 5 = Inl KeyError" by simp
  ultimately show ?thesis using pile outliers written by simp
qed

subsection \<open>C9: the random seed of a pile\<close>

text \<open>
  C9 (counterexample). The claim: each pile's direct computation gets the seed
  \<open>seed + pile_index\<close>, so distinct piles get distinct seeds. With two piles and the
  seed 7, pile 0 and pile 1 both get the seed 7.
\<close>

theorem pile_seed_counterexample:
  "pile_direct_call [0, 1] 7 0
     = Inr \<lparr> pile_cells = [0], direct_must_complete_cover = False, direct_random_seed = 7 \<rparr>
   \<and> pile_direct_call [0, 1] 7 1
     = Inr \<lparr> pile_cells = [1], direct_must_complete_cover = False, direct_random_seed = 7 \<rparr>"
  by (simp add: pile_direct_call_def upt_conv_Cons)

text \<open>
  C9 (amended). Each pile's direct computation is given the seed of the run, unchanged:
  the result of a pile is the result of \<^verbatim>\<open>compute_direct_metacells\<close> on a call whose
  random seed is the \<^verbatim>\<open>random_seed\<close> of the run, whatever the pile index.
\<close>

theorem pile_seed_is_run_seed:
  "compute_pile_metacells compute_direct_metacells pile_of_cells random_seed pile_index = Inr frame
   \<Longrightarrow> \<exists>call. pile_direct_call pile_of_cells random_seed pile_index = Inr call
            \<and> frame = compute_direct_metacells call
            \<and> direct_random_seed call = random_seed"
  by (auto simp: compute_pile_metacells_def pile_direct_call_def Let_def split: sum.splits if_splits)

theorem pile_seed_is_run_seed_witness:
  "compute_pile_metacells (\<lambda>call. [(0, direct_random_seed call)]) [0, 1] 7 1 = Inr [(0, 7)]
   \<and> (\<exists>call. pile_direct_call [0, 1] 7 1 = Inr call
            \<and> [(0, 7)] = (\<lambda>call. [(0, direct_random_seed call)]) call
            \<and> direct_random_seed call = 7)"
proof -
  have h: "compute_pile_metacells (\<lambda>call. [(0, direct_random_seed call)]) [0, 1] 7 1 = Inr [(0, 7)]"
    by (simp add: compute_pile_metacells_def pile_direct_call_def)
  from pile_seed_is_run_seed [OF h] h show ?thesis by blast
qed

section \<open>Properties of \<^verbatim>\<open>compute_candidate_metacells\<close> and of the entry of the pipeline\<close>

subsection \<open>C8: failures at entry\<close>

text \<open>
  C8. An empty set of cells makes \<^verbatim>\<open>divide_and_conquer_pipeline\<close> raise \<^verbatim>\<open>ValueError\<close>
  instead of returning an (empty) result. \<^verbatim>\<open>compute_candidate_metacells\<close> checks its
  size parameters at entry: a target size that is not positive fails, and when both the
  split and the merge factor are given, a merge factor that is not strictly less than
  the split factor fails. The failure is the result whatever the partition method, the
  bin functions and the rest of the pipeline are: the checks come before any of them is
  called.
\<close>

theorem entry_validation:
  "divide_and_conquer_pipeline is_clean continue [] = Inl ValueError
   \<and> (target_metacell_size \<le> 0 \<longrightarrow>
        compute_candidate_metacells method bin_pack bin_fill compress_indices
          target_metacell_size cell_sizes min_split_size_factor max_merge_size_factor
          min_metacell_cells cover = Some (Inl AssertionError))
   \<and> (min_split_size_factor = Some split_factor \<and> max_merge_size_factor = Some merge_factor
        \<and> \<not> merge_factor < split_factor \<longrightarrow>
        compute_candidate_metacells method bin_pack bin_fill compress_indices
          target_metacell_size cell_sizes min_split_size_factor max_merge_size_factor
          min_metacell_cells cover = Some (Inl AssertionError))"
  by (simp add: divide_and_conquer_pipeline_def extract_clean_data_def
        compute_candidate_metacells_def Let_def)

theorem entry_validation_witness:
  "divide_and_conquer_pipeline (\<lambda>cell :: nat. True) (\<lambda>cdata. Inr (length cdata)) [] = Inl ValueError
   \<and> (0::int) \<le> 0
   \<and> compute_candidate_metacells (\<lambda>t mx mn mc r. [0, 0]) (\<lambda>sizes t. []) (\<lambda>ns m. []) id
          0 None (Some 2) (Some 1) None False = Some (Inl AssertionError)
   \<and> \<not> (2 :: rat) < 1
   \<and> compute_candidate_metacells (\<lambda>t mx mn mc r. [0, 0]) (\<lambda>sizes t. []) (\<lambda>ns m. []) id
          3 None (Some 1) (Some 2) None False = Some (Inl AssertionError)"
  using entry_validation [of "\<lambda>cell :: nat. True" "\<lambda>cdata. Inr (length cdata)" 0
      "\<lambda>t mx mn mc r. [0, 0]" "\<lambda>sizes t. []" "\<lambda>ns m. []" id None "Some 2" "Some 1" None False 1 2]
    entry_validation [of "\<lambda>cell :: nat. True" "\<lambda>cdata. Inr (length cdata)" 3
      "\<lambda>t mx mn mc r. [0, 0]" "\<lambda>sizes t. []" "\<lambda>ns m. []" id None "Some 1" "Some 2" None False 1 2]
  by simp

subsection \<open>C10: only a minimal number of cells is given\<close>

text \<open>
  C10. When \<^verbatim>\<open>min_metacell_cells\<close> is given and both \<^verbatim>\<open>min_split_size_factor\<close> and
  \<^verbatim>\<open>max_merge_size_factor\<close> are \<^verbatim>\<open>None\<close>, the result of \<^verbatim>\<open>compute_candidate_metacells\<close>
  (for a positive target size) is the membership the partition method returned for the
  whole graph, as it is: the result depends neither on the improver nor on \<^verbatim>\<open>fill\<close>,
  \<^verbatim>\<open>pack\<close> or \<^verbatim>\<open>compress_indices\<close>, none of which is run. In the witness the partition
  method returns a community of one cell although two cells are the minimum, and this is
  the result.
\<close>

theorem no_refinement_without_factors:
  "0 < target_metacell_size \<Longrightarrow>
   compute_candidate_metacells method bin_pack bin_fill compress_indices
     target_metacell_size cell_sizes None None (Some min_metacell_cells) cover
   = Some (Inr (method target_metacell_size None None (Some min_metacell_cells) Whole_graph))"
  by (simp add: compute_candidate_metacells_def)

theorem no_refinement_without_factors_witness:
  "(0::int) < 3 \<and>
   compute_candidate_metacells (\<lambda>t mx mn mc r. [0, 1, 1]) (\<lambda>sizes t. []) (\<lambda>ns m. []) (\<lambda>v. [])
     3 None None None (Some 2) True = Some (Inr [0, 1, 1])"
  using no_refinement_without_factors [of 3 "\<lambda>t mx mn mc r. [0, 1, 1]" "\<lambda>sizes t. []" "\<lambda>ns m. []"
      "\<lambda>v. []" None 2 True]
  by simp

section \<open>The invariant is kept by every operation\<close>

lemma add_community_eq:
  "add_community cfg s =
     (let c = community_of cfg (membership s) (next_community_index s) in
      s \<lparr> next_community_index := next_community_index s + 1,
          too_few := too_few s + c_too_few c,
          too_small := too_small s + c_too_small c,
          too_large := too_large s + c_too_large c,
          communities := communities s @ [c] \<rparr>)"
  by (simp add: add_community_def community_of_def Let_def)

lemma community_of_index [simp]: "c_index (community_of cfg vector i) = i"
  by (simp add: community_of_def Let_def)

lemma community_of_monolithic [simp]: "\<not> c_monolithic (community_of cfg vector i)"
  by (simp add: community_of_def Let_def)

lemma community_ok_of [simp]: "community_ok cfg vector (community_of cfg vector i)"
  by (simp add: community_ok_def community_of_def Let_def)

lemma community_of_cong:
  "map (\<lambda>m. m = i) vector' = map (\<lambda>m. m = i) vector
   \<Longrightarrow> community_of cfg vector' i = community_of cfg vector i"
  by (simp add: community_of_def)

lemma community_ok_cong:
  "map (\<lambda>m. m = c_index c) vector' = map (\<lambda>m. m = c_index c) vector
   \<Longrightarrow> community_ok cfg vector' c = community_ok cfg vector c"
  using community_of_cong [of "c_index c" vector' vector cfg] by (simp add: community_ok_def)

lemma add_community_simps [simp]:
  "membership (add_community cfg s) = membership s"
  "next_community_index (add_community cfg s) = next_community_index s + 1"
  "communities (add_community cfg s)
     = communities s @ [community_of cfg (membership s) (next_community_index s)]"
  "too_few (add_community cfg s)
     = too_few s + c_too_few (community_of cfg (membership s) (next_community_index s))"
  "too_small (add_community cfg s)
     = too_small s + c_too_small (community_of cfg (membership s) (next_community_index s))"
  "too_large (add_community cfg s)
     = too_large s + c_too_large (community_of cfg (membership s) (next_community_index s))"
  "split_attempts (add_community cfg s) = split_attempts s"
  by (simp_all add: add_community_eq Let_def)

lemma add_community_consistent:
  assumes c: "consistent cfg {} (pending + 1) s" and p: "0 \<le> pending"
  shows "consistent cfg {} pending (add_community cfg s)"
proof -
  let ?n = "next_community_index s"
  from c have idx: "\<forall>c \<in> set (communities s). c_index c < ?n"
    by (simp add: consistent_def)
  then have fresh: "?n \<notin> c_index ` set (communities s)" by auto
  from c have cover: "\<forall>v \<in> set (membership s).
      v \<in> c_index ` set (communities s) \<or> (?n \<le> v \<and> v < ?n + (pending + 1))"
    by (simp add: consistent_def)
  have cover': "\<forall>v \<in> set (membership s).
      v \<in> c_index ` set (communities s) \<or> v = ?n \<or> (?n + 1 \<le> v \<and> v < ?n + 1 + pending)"
  proof
    fix v assume "v \<in> set (membership s)"
    with cover have "v \<in> c_index ` set (communities s) \<or> (?n \<le> v \<and> v < ?n + (pending + 1))"
      by blast
    then show "v \<in> c_index ` set (communities s) \<or> v = ?n \<or> (?n + 1 \<le> v \<and> v < ?n + 1 + pending)"
      by linarith
  qed
  show ?thesis
    unfolding consistent_def
  proof (intro conjI)
    show "sizes_ok cfg (membership (add_community cfg s))"
      using c by (simp add: consistent_def)
    show "\<forall>c\<in>set (communities (add_community cfg s)).
       community_ok cfg (membership (add_community cfg s)) c
       \<and> c_index c < next_community_index (add_community cfg s)"
      using c by (auto simp: consistent_def)
    show "distinct (map c_index (communities (add_community cfg s)))"
      using c fresh by (simp add: consistent_def)
    show "\<forall>v\<in>set (membership (add_community cfg s)).
       v \<in> c_index ` set (communities (add_community cfg s)) \<or> v \<in> {}
       \<or> next_community_index (add_community cfg s) \<le> v
          \<and> v < next_community_index (add_community cfg s) + pending"
      using cover' by (simp; blast)
    show "\<forall>u\<in>{}. u \<notin> c_index ` set (communities (add_community cfg s))
        \<and> u < next_community_index (add_community cfg s)"
      by simp
    show "too_few (add_community cfg s) = sum_list (map c_too_few (communities (add_community cfg s)))"
      using c by (simp add: consistent_def)
    show "too_small (add_community cfg s) = sum_list (map c_too_small (communities (add_community cfg s)))"
      using c by (simp add: consistent_def)
    show "too_large (add_community cfg s) = sum_list (map c_too_large (communities (add_community cfg s)))"
      using c by (simp add: consistent_def)
  qed
qed

lemma add_loop_consistent:
  "consistent cfg {} (int n) s \<Longrightarrow> consistent cfg {} 0 (add_loop n cfg s)"
proof (induction n arbitrary: s)
  case 0
  then show ?case by simp
next
  case (Suc n)
  have "consistent cfg {} (int n) (add_community cfg s)"
    using Suc.prems add_community_consistent [of cfg "int n" s] by (simp add: add.commute)
  then show ?case using Suc.IH by simp
qed

lemma remove_Inr:
  assumes "remove p s = Inr s'"
  shows "p < length (communities s)"
    and "membership s' = membership s"
    and "next_community_index s' = next_community_index s"
    and "split_attempts s' = split_attempts s"
    and "communities s' = take p (communities s) @ drop (Suc p) (communities s)"
    and "too_few s' = too_few s - c_too_few (communities s ! p)"
    and "too_small s' = too_small s - c_too_small (communities s ! p)"
    and "too_large s' = too_large s - c_too_large (communities s ! p)"
    and "0 \<le> too_few s'" and "0 \<le> too_small s'" and "0 \<le> too_large s'"
  using assms by (auto simp: remove_def Let_def split: if_splits)

lemma drop_nth_split:
  assumes "p < length xs"
  shows "xs = take p xs @ xs ! p # drop (Suc p) xs"
  using assms by (rule id_take_nth_drop)

lemma drop_nth_set:
  assumes "p < length xs" "distinct (map f xs)"
  shows "distinct (map f (take p xs @ drop (Suc p) xs))"
    and "f (xs ! p) \<notin> f ` set (take p xs @ drop (Suc p) xs)"
    and "set xs = insert (xs ! p) (set (take p xs @ drop (Suc p) xs))"
proof -
  have eq: "xs = take p xs @ xs ! p # drop (Suc p) xs"
    using assms(1) by (rule id_take_nth_drop)
  have d: "distinct (map f (take p xs @ xs ! p # drop (Suc p) xs))"
    using assms(2) eq by simp
  from d show "distinct (map f (take p xs @ drop (Suc p) xs))" by auto
  from d show "f (xs ! p) \<notin> f ` set (take p xs @ drop (Suc p) xs)" by auto
  have "set xs = set (take p xs @ xs ! p # drop (Suc p) xs)" using eq by simp
  then show "set xs = insert (xs ! p) (set (take p xs @ drop (Suc p) xs))" by simp
qed

lemma drop_nth_sum:
  fixes f :: "'a \<Rightarrow> int"
  assumes "p < length xs"
  shows "sum_list (map f (take p xs @ drop (Suc p) xs)) = sum_list (map f xs) - f (xs ! p)"
proof -
  have "sum_list (map f xs) = sum_list (map f (take p xs @ xs ! p # drop (Suc p) xs))"
    using id_take_nth_drop [OF assms] by simp
  then show ?thesis by simp
qed

lemma remove_consistent:
  assumes c: "consistent cfg orphans pending s" and r: "remove p s = Inr s'"
  shows "consistent cfg (insert (c_index (communities s ! p)) orphans) pending s'"
proof -
  let ?cs = "communities s" and ?cs' = "take p (communities s) @ drop (Suc p) (communities s)"
  note R = remove_Inr [OF r]
  from c have d: "distinct (map c_index ?cs)" by (simp add: consistent_def)
  note D = drop_nth_set [OF R(1) d]
  have sub: "set ?cs' \<subseteq> set ?cs" using D(3) by auto
  have inp: "?cs ! p \<in> set ?cs" using R(1) by simp
  show ?thesis
    unfolding consistent_def
  proof (intro conjI)
    show "sizes_ok cfg (membership s')" using c R by (simp add: consistent_def)
    show "\<forall>c\<in>set (communities s').
       community_ok cfg (membership s') c \<and> c_index c < next_community_index s'"
      using c sub R(2,3,5) by (auto simp: consistent_def)
    show "distinct (map c_index (communities s'))" using D(1) R(5) by simp
    show "\<forall>v\<in>set (membership s').
       v \<in> c_index ` set (communities s') \<or> v \<in> insert (c_index (?cs ! p)) orphans
       \<or> next_community_index s' \<le> v \<and> v < next_community_index s' + pending"
    proof
      fix v assume "v \<in> set (membership s')"
      then have "v \<in> set (membership s)" using R(2) by simp
      with c have "v \<in> c_index ` set ?cs \<or> v \<in> orphans
          \<or> (next_community_index s \<le> v \<and> v < next_community_index s + pending)"
        by (simp add: consistent_def)
      moreover have "c_index ` set ?cs = insert (c_index (?cs ! p)) (c_index ` set ?cs')"
        using D(3) by (metis image_insert)
      ultimately show "v \<in> c_index ` set (communities s') \<or> v \<in> insert (c_index (?cs ! p)) orphans
       \<or> next_community_index s' \<le> v \<and> v < next_community_index s' + pending"
        using R(3,5) by auto
    qed
    show "\<forall>u\<in>insert (c_index (?cs ! p)) orphans.
       u \<notin> c_index ` set (communities s') \<and> u < next_community_index s'"
    proof
      fix u assume u: "u \<in> insert (c_index (?cs ! p)) orphans"
      show "u \<notin> c_index ` set (communities s') \<and> u < next_community_index s'"
      proof (cases "u = c_index (?cs ! p)")
        case True
        then show ?thesis using D(2) R(3,5) c inp by (auto simp: consistent_def)
      next
        case False
        with u have "u \<in> orphans" by simp
        with c have "u \<notin> c_index ` set ?cs \<and> u < next_community_index s"
          by (simp add: consistent_def)
        then show ?thesis using sub R(3,5) by auto
      qed
    qed
    show "too_few s' = sum_list (map c_too_few (communities s'))"
      using c R(1,5,6) drop_nth_sum [OF R(1), of c_too_few] by (simp add: consistent_def)
    show "too_small s' = sum_list (map c_too_small (communities s'))"
      using c R(1,5,7) drop_nth_sum [OF R(1), of c_too_small] by (simp add: consistent_def)
    show "too_large s' = sum_list (map c_too_large (communities s'))"
      using c R(1,5,8) drop_nth_sum [OF R(1), of c_too_large] by (simp add: consistent_def)
  qed
qed

lemma relabel_consistent:
  assumes c: "consistent cfg orphans 0 s"
    and len: "length vector = length (membership s)"
    and same: "\<And>x. x < length vector \<Longrightarrow> membership s ! x \<notin> orphans
                 \<Longrightarrow> vector ! x = membership s ! x"
    and moved: "\<And>x. x < length vector \<Longrightarrow> membership s ! x \<in> orphans
                 \<Longrightarrow> next_community_index s \<le> vector ! x
                     \<and> vector ! x < next_community_index s + pending"
  shows "consistent cfg {} pending (s \<lparr> membership := vector \<rparr>)"
proof -
  let ?m = "membership s"
  have cover: "\<And>x. x < length ?m \<Longrightarrow> ?m ! x \<in> c_index ` set (communities s) \<or> ?m ! x \<in> orphans"
    using c by (fastforce simp: consistent_def)
  have orph: "\<And>u. u \<in> orphans \<Longrightarrow> u \<notin> c_index ` set (communities s) \<and> u < next_community_index s"
    using c by (simp add: consistent_def)
  have ok: "\<And>c. c \<in> set (communities s) \<Longrightarrow>
      community_ok cfg ?m c \<and> c_index c < next_community_index s"
    using c by (simp add: consistent_def)
  have mask: "map (\<lambda>m. m = c_index c) vector = map (\<lambda>m. m = c_index c) ?m"
    if cin: "c \<in> set (communities s)" for c
  proof (rule nth_equalityI)
    show "length (map (\<lambda>m. m = c_index c) vector) = length (map (\<lambda>m. m = c_index c) ?m)"
      using len by simp
  next
    fix x assume "x < length (map (\<lambda>m. m = c_index c) vector)"
    then have x: "x < length vector" by simp
    show "map (\<lambda>m. m = c_index c) vector ! x = map (\<lambda>m. m = c_index c) ?m ! x"
    proof (cases "?m ! x \<in> orphans")
      case True
      from orph [OF True] cin have "?m ! x \<noteq> c_index c" by auto
      moreover from moved [OF x True] ok [OF cin] have "vector ! x \<noteq> c_index c" by auto
      ultimately show ?thesis using x len by simp
    next
      case False
      from same [OF x False] show ?thesis using x len by simp
    qed
  qed
  show ?thesis
    unfolding consistent_def
  proof (intro conjI)
    show "sizes_ok cfg (membership (s\<lparr>membership := vector\<rparr>))"
      using c len by (simp add: consistent_def sizes_ok_def split: option.splits)
    show "\<forall>c\<in>set (communities (s\<lparr>membership := vector\<rparr>)).
       community_ok cfg (membership (s\<lparr>membership := vector\<rparr>)) c
       \<and> c_index c < next_community_index (s\<lparr>membership := vector\<rparr>)"
    proof
      fix c assume "c \<in> set (communities (s\<lparr>membership := vector\<rparr>))"
      then have cin: "c \<in> set (communities s)" by simp
      from community_ok_cong [OF mask [OF cin], of cfg] ok [OF cin]
      show "community_ok cfg (membership (s\<lparr>membership := vector\<rparr>)) c
       \<and> c_index c < next_community_index (s\<lparr>membership := vector\<rparr>)" by simp
    qed
    show "distinct (map c_index (communities (s\<lparr>membership := vector\<rparr>)))"
      using c by (simp add: consistent_def)
    show "\<forall>v\<in>set (membership (s\<lparr>membership := vector\<rparr>)).
       v \<in> c_index ` set (communities (s\<lparr>membership := vector\<rparr>)) \<or> v \<in> {}
       \<or> next_community_index (s\<lparr>membership := vector\<rparr>) \<le> v
          \<and> v < next_community_index (s\<lparr>membership := vector\<rparr>) + pending"
    proof
      fix v assume "v \<in> set (membership (s\<lparr>membership := vector\<rparr>))"
      then obtain x where x: "x < length vector" and v: "v = vector ! x"
        by (auto simp: in_set_conv_nth)
      show "v \<in> c_index ` set (communities (s\<lparr>membership := vector\<rparr>)) \<or> v \<in> {}
       \<or> next_community_index (s\<lparr>membership := vector\<rparr>) \<le> v
          \<and> v < next_community_index (s\<lparr>membership := vector\<rparr>) + pending"
      proof (cases "?m ! x \<in> orphans")
        case True
        from moved [OF x True] v show ?thesis by simp
      next
        case False
        with cover [of x] x len have "?m ! x \<in> c_index ` set (communities s)" by simp
        with same [OF x False] v show ?thesis by simp
      qed
    qed
    show "\<forall>u\<in>{}. u \<notin> c_index ` set (communities (s\<lparr>membership := vector\<rparr>))
        \<and> u < next_community_index (s\<lparr>membership := vector\<rparr>)"
      by simp
    show "too_few (s\<lparr>membership := vector\<rparr>)
        = sum_list (map c_too_few (communities (s\<lparr>membership := vector\<rparr>)))"
      using c by (simp add: consistent_def)
    show "too_small (s\<lparr>membership := vector\<rparr>)
        = sum_list (map c_too_small (communities (s\<lparr>membership := vector\<rparr>)))"
      using c by (simp add: consistent_def)
    show "too_large (s\<lparr>membership := vector\<rparr>)
        = sum_list (map c_too_large (communities (s\<lparr>membership := vector\<rparr>)))"
      using c by (simp add: consistent_def)
  qed
qed

lemma sum_list_delta:
  fixes b :: int
  shows "distinct xs \<Longrightarrow> a \<in> set xs \<Longrightarrow> (\<Sum>i\<leftarrow>xs. if a = i then b else 0) = b"
proof (induction xs)
  case Nil
  then show ?case by simp
next
  case (Cons x xs)
  show ?case
  proof (cases "a = x")
    case True
    with Cons.prems have "a \<notin> set xs" by simp
    then have "(\<Sum>i\<leftarrow>xs. if a = i then b else 0) = 0"
      by (induction xs) auto
    with True show ?thesis by simp
  next
    case False
    with Cons show ?thesis by simp
  qed
qed

lemma sum_by_label:
  fixes w :: "'a \<Rightarrow> int"
  assumes "distinct labels" "\<forall>x \<in> set xs. label x \<in> set labels"
  shows "(\<Sum>i\<leftarrow>labels. sum_list (map w (filter (\<lambda>x. label x = i) xs))) = sum_list (map w xs)"
  using assms(2)
proof (induction xs)
  case Nil
  then show ?case by simp
next
  case (Cons x xs)
  have "(\<Sum>i\<leftarrow>labels. sum_list (map w (filter (\<lambda>y. label y = i) (x # xs))))
      = (\<Sum>i\<leftarrow>labels. (if label x = i then w x else 0)
                          + sum_list (map w (filter (\<lambda>y. label y = i) xs)))"
    by (rule arg_cong [where f = sum_list]) (rule map_cong, auto)
  also have "\<dots> = (\<Sum>i\<leftarrow>labels. if label x = i then w x else 0)
                  + (\<Sum>i\<leftarrow>labels. sum_list (map w (filter (\<lambda>y. label y = i) xs)))"
    by (simp add: sum_list_addf)
  also have "\<dots> = w x + sum_list (map w xs)"
    using Cons sum_list_delta [OF assms(1), of "label x" "w x"] by simp
  finally show ?case by simp
qed

lemma sum_list_ones: "sum_list (map (\<lambda>m. 1) xs) = int (length xs)"
  by (induction xs) auto

lemma count_true_filter: "count_true (map (\<lambda>m. m = i) vector) = sum_list (map (\<lambda>m. 1) (filter (\<lambda>m. m = i) vector))"
  by (induction vector) (auto simp: count_true_def)





lemma fold_max_ge: "(x::int) \<le> fold max xs x"
  by (induction xs arbitrary: x) (auto intro: order_trans [OF max.cobounded2])

lemma fold_max_props:
  fixes x :: int
  shows "fold max xs x \<in> set (x # xs) \<and> (\<forall>v \<in> set (x # xs). v \<le> fold max xs x)"
proof (induction xs arbitrary: x)
  case Nil
  then show ?case by simp
next
  case (Cons a xs)
  from Cons [of "max a x"] show ?case by (auto simp: max_def split: if_splits)
qed

lemma np_max_Inr:
  assumes "np_max xs = Inr m"
  shows "xs \<noteq> []" and "m \<in> set xs" and "\<And>v. v \<in> set xs \<Longrightarrow> v \<le> m"
proof -
  from assms obtain x xs' where xs: "xs = x # xs'" and m: "m = fold max xs' x"
    by (cases xs) auto
  from xs show "xs \<noteq> []" by simp
  from fold_max_props [of xs' x] xs m show "m \<in> set xs" by simp
  fix v assume "v \<in> set xs"
  with fold_max_props [of xs' x] xs m show "v \<le> m" by auto
qed

lemma add_Some_consistent:
  assumes "consistent cfg {} n s" "0 \<le> n" "add cfg (Some n) s = Inr s'"
  shows "consistent cfg {} 0 s'"
proof -
  from assms(3) have s': "s' = add_loop (nat n) cfg s"
    by (auto simp: add_def split: if_splits)
  from assms(1,2) have "consistent cfg {} (int (nat n)) s" by simp
  from add_loop_consistent [OF this] s' show ?thesis by simp
qed

lemma Improver_init_consistent:
  assumes init: "Improver_init cfg vector = Inr s" and nonneg: "\<forall>v \<in> set vector. 0 \<le> v"
  shows "consistent cfg {} 0 s" and "length (membership s) = length vector"
proof -
  let ?s0 = "\<lparr> membership = vector, communities = [], too_few = 0, too_small = 0,
               too_large = 0, next_community_index = 0, split_attempts = [] \<rparr>"
  from init obtain m where m: "np_max vector = Inr m"
    by (auto simp: Improver_init_def split: sum.splits)
  note M = np_max_Inr [OF m]
  from M(2) nonneg have m0: "0 \<le> m" by auto
  from init m m0 have ok: "sizes_ok cfg vector" and a: "add cfg None ?s0 = Inr s"
    by (auto simp: Improver_init_def sizes_ok_def split: if_splits option.splits)
  from a m have s: "s = add_loop (nat (m + 1)) cfg ?s0"
    by (simp add: add_def)
  have "consistent cfg {} (int (nat (m + 1))) ?s0"
    using ok nonneg M(3) m0 by (auto simp: consistent_def)
  from add_loop_consistent [OF this] s show "consistent cfg {} 0 s" by simp
  have "\<And>t. membership (add_loop n cfg t) = membership t" for n
    by (induction n) auto
  with s show "length (membership s) = length vector" by simp
qed

lemma add_loop_membership [simp]: "membership (add_loop n cfg s) = membership s"
  by (induction n arbitrary: s) auto

lemma add_membership: "add cfg count s = Inr s' \<Longrightarrow> membership s' = membership s"
  by (auto simp: add_def split: option.splits if_splits sum.splits)

lemma remove_membership_update:
  "remove p (s \<lparr> membership := vector \<rparr>)
     = map_sum id (\<lambda>s'. s' \<lparr> membership := vector \<rparr>) (remove p s)"
  by (simp add: remove_def Let_def)

lemma remove_positions_membership_update:
  "remove_positions ps (s \<lparr> membership := vector \<rparr>)
     = map_sum id (\<lambda>s'. s' \<lparr> membership := vector \<rparr>) (remove_positions ps s)"
proof (induction ps arbitrary: s)
  case Nil
  then show ?case by simp
next
  case (Cons p ps)
  show ?case
  proof (cases "remove p s")
    case (Inl e)
    then show ?thesis by (simp add: remove_membership_update)
  next
    case (Inr s1)
    then show ?thesis using Cons [of s1] by (simp add: remove_membership_update)
  qed
qed

lemma remove_positions_consistent:
  assumes "sorted_wrt (>) ps" "consistent cfg orphans pending s" "remove_positions ps s = Inr s'"
  shows "consistent cfg (orphans \<union> (\<lambda>p. c_index (communities s ! p)) ` set ps) pending s'"
  using assms
proof (induction ps arbitrary: s orphans)
  case Nil
  then show ?case by simp
next
  case (Cons p ps)
  from Cons.prems(3) obtain s1 where r: "remove p s = Inr s1"
    and rest: "remove_positions ps s1 = Inr s'"
    by (auto split: sum.splits)
  note R = remove_Inr [OF r]
  have same: "communities s1 ! q = communities s ! q" if "q \<in> set ps" for q
  proof -
    from that Cons.prems(1) have "q < p" by auto
    then show ?thesis using R(1,5) by (simp add: nth_append)
  qed
  from Cons.prems(1) have sorted: "sorted_wrt (>) ps" by simp
  from Cons.IH [OF sorted remove_consistent [OF Cons.prems(2) r] rest]
  have "consistent cfg (insert (c_index (communities s ! p)) orphans
          \<union> (\<lambda>q. c_index (communities s1 ! q)) ` set ps) pending s'" .
  moreover have "(\<lambda>q. c_index (communities s1 ! q)) ` set ps
      = (\<lambda>q. c_index (communities s ! q)) ` set ps"
    using same by (intro image_cong) auto
  ultimately show ?case by (simp add: Un_commute insert_commute)
qed

lemma remove_positions_next:
  "remove_positions ps s = Inr s' \<Longrightarrow>
     next_community_index s' = next_community_index s \<and> membership s' = membership s
     \<and> split_attempts s' = split_attempts s"
proof (induction ps arbitrary: s)
  case Nil
  then show ?case by simp
next
  case (Cons p ps)
  from Cons.prems obtain s1 where r: "remove p s = Inr s1"
    and rest: "remove_positions ps s1 = Inr s'"
    by (auto split: sum.splits)
  from Cons.IH [OF rest] remove_Inr [OF r] show ?case by simp
qed

lemma community_ok_mask:
  "community_ok cfg vector c \<Longrightarrow> c_mask c = map (\<lambda>m. m = c_index c) vector"
proof -
  assume "community_ok cfg vector c"
  then have "c_mask (c \<lparr> c_monolithic := False \<rparr>) = c_mask (community_of cfg vector (c_index c))"
    by (simp add: community_ok_def)
  then show ?thesis by (simp add: community_of_def Let_def)
qed

lemma assign_mask_nth:
  assumes "length vector = length m" "x < length m"
  shows "assign_mask vector (map (\<lambda>v. v = i) m) val ! x = (if m ! x = i then val else vector ! x)"
    and "length (assign_mask vector (map (\<lambda>v. v = i) m) val) = length m"
  using assms by (simp_all add: assign_mask_def)

lemma fold_assign_mask:
  assumes "distinct (map c_index cs)"
    and "\<forall>c \<in> set cs. c_mask c = map (\<lambda>v. v = c_index c) m"
    and "length vector = length m"
  shows "length (fold (\<lambda>(merged_community, merged_index) vector.
                         assign_mask vector (c_mask merged_community) (merged_index + nxt))
                      (zip cs vs) vector) = length m
         \<and> (\<forall>x < length m.
              fold (\<lambda>(merged_community, merged_index) vector.
                      assign_mask vector (c_mask merged_community) (merged_index + nxt))
                   (zip cs vs) vector ! x
              = (case map_of (zip (map c_index cs) vs) (m ! x) of
                   Some v \<Rightarrow> v + nxt | None \<Rightarrow> vector ! x))"
  using assms
proof (induction cs arbitrary: vs vector)
  case Nil
  then show ?case by simp
next
  case (Cons c cs)
  show ?case
  proof (cases vs)
    case Nil
    with Cons.prems show ?thesis by simp
  next
    case (Cons v vs')
    let ?vec = "assign_mask vector (c_mask c) (v + nxt)"
    from Cons.prems(2) have mask: "c_mask c = map (\<lambda>v. v = c_index c) m" by simp
    have len: "length ?vec = length m"
      using assign_mask_nth(2) [of vector m] Cons.prems(3) mask
      by (cases "m = []") (auto simp: assign_mask_def)
    from Cons.prems have d: "distinct (map c_index cs)"
      and masks: "\<forall>c \<in> set cs. c_mask c = map (\<lambda>v. v = c_index c) m"
      and fresh: "c_index c \<notin> set (map c_index cs)"
      by auto
    note IH = Cons.IH [OF d masks len, of vs']
    have "fold (\<lambda>(merged_community, merged_index) vector.
                  assign_mask vector (c_mask merged_community) (merged_index + nxt))
               (zip cs vs') ?vec ! x
          = (case map_of (zip (map c_index (c # cs)) vs) (m ! x) of
               Some v \<Rightarrow> v + nxt | None \<Rightarrow> vector ! x)" if x: "x < length m" for x
    proof (cases "m ! x = c_index c")
      case True
      then have "map_of (zip (map c_index cs) vs') (m ! x) = None"
        using fresh by (metis map_of_SomeD not_Some_eq set_zip_leftD)
      moreover have "?vec ! x = v + nxt"
        using assign_mask_nth(1) [OF Cons.prems(3) x, of "c_index c"] mask True by simp
      ultimately show ?thesis using IH x True Cons by simp
    next
      case False
      have "?vec ! x = vector ! x"
        using assign_mask_nth(1) [OF Cons.prems(3) x, of "c_index c"] mask False by simp
      then show ?thesis using IH x False Cons by (simp split: option.splits)
    qed
    then show ?thesis using IH Cons by simp
  qed
qed

lemma nth_filter_positions:
  "map (\<lambda>p. xs ! p) (filter (\<lambda>p. P (xs ! p)) [0 ..< length xs]) = filter P xs"
proof -
  have "filter P xs = filter P (map (\<lambda>p. xs ! p) [0 ..< length xs])"
    by (simp add: map_nth)
  also have "\<dots> = map (\<lambda>p. xs ! p) (filter (\<lambda>p. P (xs ! p)) [0 ..< length xs])"
    by (simp add: filter_map comp_def)
  finally show ?thesis by simp
qed

lemma map_of_zip_value:
  assumes "length ks = length vs" "k \<in> set ks"
  shows "\<exists>v \<in> set vs. map_of (zip ks vs) k = Some v"
proof -
  from assms obtain v where v: "map_of (zip ks vs) k = Some v"
    by (metis map_of_zip_is_Some)
  then have "(k, v) \<in> set (zip ks vs)" by (rule map_of_SomeD)
  then have "v \<in> set vs" by (rule set_zip_rightD)
  with v show ?thesis by blast
qed

lemma merge_few_or_small_consistent:
  assumes c: "consistent cfg {} 0 s" and pm: "partition_ok partition_method"
    and mg: "merge_few_or_small partition_method cfg s = Inr (s', did)"
  shows "consistent cfg {} 0 s' \<and> length (membership s') = length (membership s)"
proof -
  let ?ps = "filter (\<lambda>position. few_or_small (communities s ! position))
                    [0 ..< length (communities s)]"
  let ?cs = "map (\<lambda>position. communities s ! position) ?ps"
  have cs: "?cs = filter few_or_small (communities s)" by (rule nth_filter_positions)
  show ?thesis
  proof (cases "length ?cs < 2")
    case True
    with mg have "s' = s" by (simp add: merge_few_or_small_def Let_def)
    with c show ?thesis by simp
  next
    case False
    let ?v = "partition_method (Condensed_graph (map c_mask ?cs) (map c_size ?cs))"
    let ?m' = "fold (\<lambda>(merged_community, merged_index) vector.
                       assign_mask vector (c_mask merged_community)
                                   (merged_index + next_community_index s))
                    (zip ?cs ?v) (membership s)"
    from mg False obtain s2 m where
      r: "remove_positions (rev ?ps) (s \<lparr> membership := ?m' \<rparr>) = Inr s2"
      and m: "np_max ?v = Inr m"
      and a: "add cfg (Some (m + 1)) s2 = Inr s'"
      by (auto simp: merge_few_or_small_def Let_def split: sum.splits)
    from r obtain s2' where r': "remove_positions (rev ?ps) s = Inr s2'"
      and s2: "s2 = s2' \<lparr> membership := ?m' \<rparr>"
      by (cases "remove_positions (rev ?ps) s")
         (auto simp: remove_positions_membership_update)
    have "sorted_wrt (<) ?ps" by (intro sorted_wrt_filter) simp
    then have desc: "sorted_wrt (>) (rev ?ps)" by (simp add: sorted_wrt_rev)
    have img: "(\<lambda>p. c_index (communities s ! p)) ` set (rev ?ps) = c_index ` set ?cs"
      by (simp add: image_image)
    from remove_positions_consistent [OF desc c r'] img
    have c2: "consistent cfg (c_index ` set ?cs) 0 s2'" by simp
    note N = remove_positions_next [OF r']
    from pm have lenv: "length ?v = length ?cs" and posv: "\<forall>v \<in> set ?v. 0 \<le> v"
      unfolding partition_ok_def by (metis length_map)+
    from c have d: "distinct (map c_index ?cs)"
      unfolding cs by (simp add: consistent_def distinct_map_filter)
    from c have masks: "\<forall>c \<in> set ?cs. c_mask c = map (\<lambda>v. v = c_index c) (membership s)"
      unfolding cs by (auto simp: consistent_def community_ok_mask)
    from fold_assign_mask [OF d masks refl, of "next_community_index s" ?v]
    have len: "length ?m' = length (membership s)"
      and nth: "\<And>x. x < length (membership s) \<Longrightarrow>
          ?m' ! x = (case map_of (zip (map c_index ?cs) ?v) (membership s ! x) of
                       Some v \<Rightarrow> v + next_community_index s | None \<Rightarrow> membership s ! x)"
      by blast+
    from np_max_Inr [OF m] posv have m0: "0 \<le> m" by auto
    have "consistent cfg {} (m + 1) (s2' \<lparr> membership := ?m' \<rparr>)"
    proof (rule relabel_consistent [OF c2])
      show "length ?m' = length (membership s2')" using len N by simp
    next
      fix x assume x: "x < length ?m'" and nin: "membership s2' ! x \<notin> c_index ` set ?cs"
      from N have ms: "membership s2' = membership s" by simp
      from nin have "membership s ! x \<notin> set (map c_index ?cs)" unfolding ms set_map .
      then have "map_of (zip (map c_index ?cs) ?v) (membership s ! x) = None"
        using lenv by (metis length_map map_of_zip_is_None)
      moreover from x len have "x < length (membership s)" by simp
      ultimately show "?m' ! x = membership s2' ! x" using nth [of x] N by simp
    next
      fix x assume x: "x < length ?m'" and isin: "membership s2' ! x \<in> c_index ` set ?cs"
      from N have ms: "membership s2' = membership s" by simp
      from isin have "membership s ! x \<in> set (map c_index ?cs)" unfolding ms set_map .
      with map_of_zip_value [of "map c_index ?cs" ?v] lenv
      obtain v where v: "v \<in> set ?v"
        and mo: "map_of (zip (map c_index ?cs) ?v) (membership s ! x) = Some v"
        by auto
      from v posv np_max_Inr(3) [OF m] have vm: "0 \<le> v \<and> v \<le> m" by auto
      from x len have "x < length (membership s)" by simp
      from nth [OF this] mo have "?m' ! x = v + next_community_index s" by simp
      with vm N
      show "next_community_index s2' \<le> ?m' ! x \<and> ?m' ! x < next_community_index s2' + (m + 1)"
        by simp
    qed
    with s2 have "consistent cfg {} (m + 1) s2" by simp
    from add_Some_consistent [OF this _ a] m0 have "consistent cfg {} 0 s'" by simp
    moreover from add_membership [OF a] s2 len have "length (membership s') = length (membership s)"
      by simp
    ultimately show ?thesis by simp
  qed
qed

lemma split_large_loop_rule:
  assumes run: "split_large_loop partition_method cfg s position did_split = Some (Inr (s', did'))"
    and start: "I s position"
    and skip: "\<And>s p. I s p \<Longrightarrow> p < length (communities s)
                 \<Longrightarrow> c_too_large (communities s ! p) = 0 \<or> c_monolithic (communities s ! p)
                 \<Longrightarrow> I s (p + 1)"
    and step: "\<And>s p s1 did. I s p \<Longrightarrow> p < length (communities s)
                 \<Longrightarrow> \<not> (c_too_large (communities s ! p) = 0 \<or> c_monolithic (communities s ! p))
                 \<Longrightarrow> split_attempt partition_method cfg s p = Inr (s1, did)
                 \<Longrightarrow> I s1 (if did then p else p + 1)"
  shows "\<exists>p. length (communities s') \<le> p \<and> I s' p"
proof -
  have gen: "split_large_loop pm0 cfg0 s0 p0 d0 = Some y \<Longrightarrow> pm0 = partition_method \<Longrightarrow> cfg0 = cfg \<Longrightarrow> I s0 p0
      \<Longrightarrow> \<forall>s' did'. y = Inr (s', did') \<longrightarrow> (\<exists>p. length (communities s') \<le> p \<and> I s' p)" for pm0 cfg0 s0 p0 d0 y
  proof (induction pm0 cfg0 s0 p0 d0 y rule: split_large_loop.raw_induct [rotated 1, consumes 1])
    case (1 loop pm0 cfg0 s0 p0 d0 y)
    note hyps = "1.hyps" and IH = "1.IH"
    show ?case
    proof (intro allI impI)
      fix s' did'
      assume y: "y = Inr (s', did')"
      note pm0 = "1.prems"(1) and cfg0 = "1.prems"(2) and I0 = "1.prems"(3)
      show "\<exists>p. length (communities s') \<le> p \<and> I s' p"
      proof (cases "p0 < length (communities s0)")
        case False
        with hyps y have "s' = s0" by simp
        with False I0 show ?thesis by (intro exI [of _ p0]) simp
      next
        case inb: True
        show ?thesis
        proof (cases "c_too_large (communities s0 ! p0) = 0 \<or> c_monolithic (communities s0 ! p0)")
          case True
          with inb hyps have "loop pm0 cfg0 s0 (p0 + 1) d0 = Some y" by simp
          from IH [OF this] y skip [OF I0 inb True] pm0 cfg0 show ?thesis by blast
        next
          case False
          with inb hyps obtain s1 did where
            att: "split_attempt pm0 cfg0 s0 p0 = Inr (s1, did)"
            and rest: "(if did then loop pm0 cfg0 s1 p0 True
                        else loop pm0 cfg0 s1 (p0 + 1) d0) = Some y"
            using y by (auto split: sum.splits)
          from step [OF I0 inb False] att pm0 cfg0
          have I1: "I s1 (if did then p0 else p0 + 1)" by simp
          show ?thesis
          proof (cases did)
            case True
            with rest have "loop pm0 cfg0 s1 p0 True = Some y" by simp
            from IH [OF this] y I1 True pm0 cfg0 show ?thesis by simp
          next
            case False
            with rest have "loop pm0 cfg0 s1 (p0 + 1) d0 = Some y" by simp
            from IH [OF this] y I1 False pm0 cfg0 show ?thesis by simp
          qed
        qed
      qed
    qed
  qed
  from gen [OF run refl refl] start show ?thesis by blast
qed

lemma split_large_rule:
  assumes run: "split_large partition_method cfg s = Some (Inr (s', did'))"
    and start: "I s"
    and step: "\<And>s p s1 did. I s \<Longrightarrow> p < length (communities s)
                 \<Longrightarrow> \<not> (c_too_large (communities s ! p) = 0 \<or> c_monolithic (communities s ! p))
                 \<Longrightarrow> split_attempt partition_method cfg s p = Inr (s1, did)
                 \<Longrightarrow> I s1"
  shows "I s'"
proof -
  from run have "split_large_loop partition_method cfg s 0 False = Some (Inr (s', did'))"
    by (simp add: split_large_def)
  from split_large_loop_rule [OF this, of "\<lambda>s p. I s"] start step show ?thesis by blast
qed

lemma merge_while_rule:
  assumes run: "merge_while partition_method cfg s = Some (Inr s')"
    and start: "I s"
    and step: "\<And>s s1 did. I s \<Longrightarrow> merge_few_or_small partition_method cfg s = Inr (s1, did)
                 \<Longrightarrow> I s1"
  shows "I s'"
proof -
  have gen: "merge_while pm0 cfg0 s0 = Some y \<Longrightarrow> pm0 = partition_method \<Longrightarrow> cfg0 = cfg \<Longrightarrow> I s0
      \<Longrightarrow> \<forall>s'. y = Inr s' \<longrightarrow> I s'" for pm0 cfg0 s0 y
  proof (induction pm0 cfg0 s0 y rule: merge_while.raw_induct [rotated 1, consumes 1])
    case (1 loop pm0 cfg0 s0 y)
    note hyps = "1.hyps" and IH = "1.IH"
    show ?case
    proof (intro allI impI)
      fix s'
      assume y: "y = Inr s'"
      note pm0 = "1.prems"(1) and cfg0 = "1.prems"(2) and I0 = "1.prems"(3)
      show "I s'"
      proof (cases "0 < too_few s0 \<or> 0 < too_small s0")
        case False
        with hyps y I0 show ?thesis by simp
      next
        case True
        with hyps y obtain s1 did where
          mg: "merge_few_or_small pm0 cfg0 s0 = Inr (s1, did)"
          and rest: "(if \<not> did then Some (Inr s1) else loop pm0 cfg0 s1) = Some y"
          by (auto split: sum.splits)
        from step [OF I0] mg pm0 cfg0 have I1: "I s1" by simp
        show ?thesis
        proof (cases did)
          case False
          with rest y I1 show ?thesis by simp
        next
          case True
          with rest have "loop pm0 cfg0 s1 = Some y" by simp
          from IH [OF this] y I1 pm0 cfg0 show ?thesis by simp
        qed
      qed
    qed
  qed
  from gen [OF run refl refl] start show ?thesis by blast
qed

lemma split_while_rule:
  assumes run: "split_while partition_method cfg s did_split = Some (Inr (s', did'))"
    and start: "I s"
    and step: "\<And>s s1 did. I s \<Longrightarrow> split_large partition_method cfg s = Some (Inr (s1, did))
                 \<Longrightarrow> I s1"
  shows "I s'"
proof -
  have gen: "split_while pm0 cfg0 s0 d0 = Some y \<Longrightarrow> pm0 = partition_method \<Longrightarrow> cfg0 = cfg \<Longrightarrow> I s0
      \<Longrightarrow> \<forall>s' did'. y = Inr (s', did') \<longrightarrow> I s'" for pm0 cfg0 s0 d0 y
  proof (induction pm0 cfg0 s0 d0 y rule: split_while.raw_induct [rotated 1, consumes 1])
    case (1 loop pm0 cfg0 s0 d0 y)
    note hyps = "1.hyps" and IH = "1.IH"
    show ?case
    proof (intro allI impI)
      fix s' did'
      assume y: "y = Inr (s', did')"
      note pm0 = "1.prems"(1) and cfg0 = "1.prems"(2) and I0 = "1.prems"(3)
      show "I s'"
      proof (cases "0 < too_large s0")
        case False
        with hyps y I0 show ?thesis by simp
      next
        case True
        with hyps y obtain s1 did where
          sp: "split_large pm0 cfg0 s0 = Some (Inr (s1, did))"
          and rest: "(if \<not> did then Some (Inr (s1, d0)) else loop pm0 cfg0 s1 True) = Some y"
          by (auto split: option.splits sum.splits)
        from step [OF I0] sp pm0 cfg0 have I1: "I s1" by simp
        show ?thesis
        proof (cases did)
          case False
          with rest y I1 show ?thesis by simp
        next
          case True
          with rest have "loop pm0 cfg0 s1 True = Some y" by simp
          from IH [OF this] y I1 pm0 cfg0 show ?thesis by simp
        qed
      qed
    qed
  qed
  from gen [OF run refl refl] start show ?thesis by blast
qed

lemma improve_loop_rule:
  assumes run: "improve_loop partition_method cfg s penalty = Some (Inr s')"
    and start: "I s"
    and merge: "\<And>s s1 did. I s \<Longrightarrow> merge_few_or_small partition_method cfg s = Inr (s1, did)
                 \<Longrightarrow> I s1"
    and split: "\<And>s s1 did. I s \<Longrightarrow> split_large partition_method cfg s = Some (Inr (s1, did))
                 \<Longrightarrow> I s1"
  shows "I s'"
proof -
  have gen: "improve_loop pm0 cfg0 s0 pen = Some y \<Longrightarrow> pm0 = partition_method \<Longrightarrow> cfg0 = cfg \<Longrightarrow> I s0
      \<Longrightarrow> \<forall>s'. y = Inr s' \<longrightarrow> I s'" for pm0 cfg0 s0 pen y
  proof (induction pm0 cfg0 s0 pen y rule: improve_loop.raw_induct [rotated 1, consumes 1])
    case (1 loop pm0 cfg0 s0 pen y)
    note hyps = "1.hyps" and IH = "1.IH"
    show ?case
    proof (intro allI impI)
      fix s'
      assume y: "y = Inr s'"
      note pm0 = "1.prems"(1) and cfg0 = "1.prems"(2) and I0 = "1.prems"(3)
      let ?pen = "(too_few s0, too_small s0 + too_large s0)"
      show "I s'"
      proof (cases "tuple_less ?pen pen")
        case False
        with hyps y I0 show ?thesis by simp
      next
        case less: True
        show ?thesis
        proof (cases "max_comm_size cfg0 \<noteq> None")
          case False
          with less hyps have "loop pm0 cfg0 s0 ?pen = Some y" by simp
          from IH [OF this] y I0 pm0 cfg0 show ?thesis by simp
        next
          case True
          with less hyps y obtain s1 did where
            sw: "split_while pm0 cfg0 s0 False = Some (Inr (s1, did))"
            and rest: "(if did \<and> min_comm_size cfg0 \<noteq> None then
                          (case merge_while pm0 cfg0 s1 of
                             None \<Rightarrow> None
                           | Some (Inl e) \<Rightarrow> Some (Inl e)
                           | Some (Inr s2) \<Rightarrow> loop pm0 cfg0 s2 ?pen)
                        else loop pm0 cfg0 s1 ?pen) = Some y"
            by (auto split: option.splits sum.splits)
          from split_while_rule [of partition_method cfg s0 False s1 did I] sw I0 split pm0 cfg0
          have I1: "I s1" by blast
          show ?thesis
          proof (cases "did \<and> min_comm_size cfg0 \<noteq> None")
            case False
            with rest have "loop pm0 cfg0 s1 ?pen = Some y" by auto
            from IH [OF this] y I1 pm0 cfg0 show ?thesis by simp
          next
            case True
            with rest y obtain s2 where
              mw: "merge_while pm0 cfg0 s1 = Some (Inr s2)"
              and rest2: "loop pm0 cfg0 s2 ?pen = Some y"
              by (auto split: option.splits sum.splits)
            from merge_while_rule [of partition_method cfg s1 s2 I] mw I1 merge pm0 cfg0
            have "I s2" by blast
            from IH [OF rest2] y this pm0 cfg0 show ?thesis by simp
          qed
        qed
      qed
    qed
  qed
  from gen [OF run refl refl] start show ?thesis by blast
qed

lemma improve_rule:
  assumes run: "improve partition_method cfg s = Some (Inr s')"
    and start: "I s"
    and merge: "\<And>s s1 did. I s \<Longrightarrow> merge_few_or_small partition_method cfg s = Inr (s1, did)
                 \<Longrightarrow> I s1"
    and split: "\<And>s s1 did. I s \<Longrightarrow> split_large partition_method cfg s = Some (Inr (s1, did))
                 \<Longrightarrow> I s1"
  shows "I s'"
proof -
  from run obtain s1 where
    first: "(if min_comm_size cfg \<noteq> None then merge_while partition_method cfg s else Some (Inr s))
              = Some (Inr s1)"
    and loop: "improve_loop partition_method cfg s1 (too_few s1, too_small s1 + too_large s1 + 1)
              = Some (Inr s')"
    by (auto simp: improve_def split: option.splits sum.splits)
  have "I s1"
  proof (cases "min_comm_size cfg \<noteq> None")
    case True
    with first have "merge_while partition_method cfg s = Some (Inr s1)" by simp
    from merge_while_rule [OF this, of I] start merge show ?thesis by blast
  next
    case False
    with first start show ?thesis by simp
  qed
  from improve_loop_rule [OF loop, of I] this merge split show ?thesis by blast
qed

lemma consistent_split_attempts [simp]:
  "consistent cfg orphans pending (s \<lparr> split_attempts := l \<rparr>) = consistent cfg orphans pending s"
  by (simp add: consistent_def)

lemma community_ok_flag [simp]:
  "community_ok cfg vector (c \<lparr> c_monolithic := b \<rparr>) = community_ok cfg vector c"
  by (simp add: community_ok_def)

lemma map_update_same:
  assumes "p < length xs" "f x = f (xs ! p)"
  shows "map f (xs[p := x]) = map f xs"
  using assms by (simp add: map_update list_update_same_conv)

lemma flag_consistent:
  assumes c: "consistent cfg {} 0 s" and p: "p < length (communities s)"
  shows "consistent cfg {} 0
           (s \<lparr> communities := (communities s)[p := (communities s ! p) \<lparr> c_monolithic := True \<rparr>] \<rparr>)"
proof -
  let ?cs = "communities s" and ?c' = "(communities s ! p) \<lparr> c_monolithic := True \<rparr>"
  have idx: "map c_index (?cs[p := ?c']) = map c_index ?cs"
    and few: "map c_too_few (?cs[p := ?c']) = map c_too_few ?cs"
    and small: "map c_too_small (?cs[p := ?c']) = map c_too_small ?cs"
    and large: "map c_too_large (?cs[p := ?c']) = map c_too_large ?cs"
    using p by (simp_all add: map_update_same)
  have img: "c_index ` set (?cs[p := ?c']) = c_index ` set ?cs"
    using idx by (metis set_map)
  have mem: "\<And>c. c \<in> set (?cs[p := ?c']) \<Longrightarrow> c = ?c' \<or> c \<in> set ?cs"
    by (meson insertE set_update_subset_insert subsetD)
  have cp: "?cs ! p \<in> set ?cs" using p by simp
  show ?thesis
    unfolding consistent_def
  proof (intro conjI)
    show "sizes_ok cfg (membership (s\<lparr>communities := ?cs[p := ?c']\<rparr>))"
      using c by (simp add: consistent_def)
    show "\<forall>c\<in>set (communities (s\<lparr>communities := ?cs[p := ?c']\<rparr>)).
       community_ok cfg (membership (s\<lparr>communities := ?cs[p := ?c']\<rparr>)) c
       \<and> c_index c < next_community_index (s\<lparr>communities := ?cs[p := ?c']\<rparr>)"
    proof
      fix c assume "c \<in> set (communities (s\<lparr>communities := ?cs[p := ?c']\<rparr>))"
      then have "c = ?c' \<or> c \<in> set ?cs" using mem by simp
      then show "community_ok cfg (membership (s\<lparr>communities := ?cs[p := ?c']\<rparr>)) c
       \<and> c_index c < next_community_index (s\<lparr>communities := ?cs[p := ?c']\<rparr>)"
        using c cp by (auto simp: consistent_def)
    qed
    show "distinct (map c_index (communities (s\<lparr>communities := ?cs[p := ?c']\<rparr>)))"
      using c idx by (simp add: consistent_def)
    show "\<forall>v\<in>set (membership (s\<lparr>communities := ?cs[p := ?c']\<rparr>)).
       v \<in> c_index ` set (communities (s\<lparr>communities := ?cs[p := ?c']\<rparr>)) \<or> v \<in> {}
       \<or> next_community_index (s\<lparr>communities := ?cs[p := ?c']\<rparr>) \<le> v
          \<and> v < next_community_index (s\<lparr>communities := ?cs[p := ?c']\<rparr>) + 0"
      using c img by (simp add: consistent_def)
    show "\<forall>u\<in>{}. u \<notin> c_index ` set (communities (s\<lparr>communities := ?cs[p := ?c']\<rparr>))
       \<and> u < next_community_index (s\<lparr>communities := ?cs[p := ?c']\<rparr>)"
      by simp
    show "too_few (s\<lparr>communities := ?cs[p := ?c']\<rparr>)
        = sum_list (map c_too_few (communities (s\<lparr>communities := ?cs[p := ?c']\<rparr>)))"
      using c few by (simp add: consistent_def)
    show "too_small (s\<lparr>communities := ?cs[p := ?c']\<rparr>)
        = sum_list (map c_too_small (communities (s\<lparr>communities := ?cs[p := ?c']\<rparr>)))"
      using c small by (simp add: consistent_def)
    show "too_large (s\<lparr>communities := ?cs[p := ?c']\<rparr>)
        = sum_list (map c_too_large (communities (s\<lparr>communities := ?cs[p := ?c']\<rparr>)))"
      using c large by (simp add: consistent_def)
  qed
qed

lemma scatter_props:
  assumes "length nodes_mask = length vector" "length (filter id nodes_mask) \<le> length vals"
  shows "length (scatter vector nodes_mask vals) = length vector
         \<and> (\<forall>x < length vector.
               (nodes_mask ! x \<longrightarrow> scatter vector nodes_mask vals ! x \<in> set vals)
               \<and> (\<not> nodes_mask ! x \<longrightarrow> scatter vector nodes_mask vals ! x = vector ! x))"
  using assms
proof (induction vector nodes_mask vals rule: scatter.induct)
  case (1 old vector b nodes_mask vals)
  show ?case
  proof (cases b)
    case True
    with "1.prems" obtain v vals' where vs: "vals = v # vals'"
      by (cases vals) auto
    with "1.IH"(2) [OF True vs] "1.prems" True
    have IH: "length (scatter vector nodes_mask vals') = length vector
         \<and> (\<forall>x < length vector.
               (nodes_mask ! x \<longrightarrow> scatter vector nodes_mask vals' ! x \<in> set vals')
               \<and> (\<not> nodes_mask ! x \<longrightarrow> scatter vector nodes_mask vals' ! x = vector ! x))"
      by simp
    show ?thesis
    proof (intro conjI allI impI)
      show "length (scatter (old # vector) (b # nodes_mask) vals) = length (old # vector)"
        using IH True vs by simp
    next
      fix x assume "x < length (old # vector)" "(b # nodes_mask) ! x"
      then show "scatter (old # vector) (b # nodes_mask) vals ! x \<in> set vals"
        using IH True vs by (cases x) auto
    next
      fix x assume "x < length (old # vector)" "\<not> (b # nodes_mask) ! x"
      then show "scatter (old # vector) (b # nodes_mask) vals ! x = (old # vector) ! x"
        using IH True vs by (cases x) auto
    qed
  next
    case False
    with "1.IH"(3) [OF False] "1.prems"
    have IH: "length (scatter vector nodes_mask vals) = length vector
         \<and> (\<forall>x < length vector.
               (nodes_mask ! x \<longrightarrow> scatter vector nodes_mask vals ! x \<in> set vals)
               \<and> (\<not> nodes_mask ! x \<longrightarrow> scatter vector nodes_mask vals ! x = vector ! x))"
      by simp
    show ?thesis
    proof (intro conjI allI impI)
      show "length (scatter (old # vector) (b # nodes_mask) vals) = length (old # vector)"
        using IH False by simp
    next
      fix x assume "x < length (old # vector)" "(b # nodes_mask) ! x"
      then show "scatter (old # vector) (b # nodes_mask) vals ! x \<in> set vals"
        using IH False by (cases x) auto
    next
      fix x assume "x < length (old # vector)" "\<not> (b # nodes_mask) ! x"
      then show "scatter (old # vector) (b # nodes_mask) vals ! x = (old # vector) ! x"
        using IH False by (cases x) auto
    qed
  qed
qed simp_all

lemma split_attempt_consistent:
  assumes c: "consistent cfg {} 0 s" and pm: "partition_ok partition_method"
    and p: "p < length (communities s)"
    and att: "split_attempt partition_method cfg s p = Inr (s', did)"
  shows "consistent cfg {} 0 s' \<and> length (membership s') = length (membership s)"
proof -
  let ?c = "communities s ! p"
  let ?v = "partition_method (Subgraph (c_mask ?c)
              (map_option (\<lambda>sizes. masked sizes (c_mask ?c)) (node_sizes cfg)))"
  let ?s0 = "s \<lparr> split_attempts := split_attempts s @ [c_index ?c] \<rparr>"
  from att obtain m where m: "np_max ?v = Inr m"
    by (auto simp: split_attempt_def Let_def split: sum.splits)
  show ?thesis
  proof (cases "m + 1 = 1")
    case True
    with att m have "s' = ?s0 \<lparr> communities := (communities ?s0)[p := ?c \<lparr> c_monolithic := True \<rparr>] \<rparr>"
      by (simp add: split_attempt_def Let_def)
    then have "s' = (s \<lparr> communities := (communities s)[p := ?c \<lparr> c_monolithic := True \<rparr>] \<rparr>)
                      \<lparr> split_attempts := split_attempts s @ [c_index ?c] \<rparr>"
      by simp
    with flag_consistent [OF c p] show ?thesis by simp
  next
    case False
    with att m obtain s1 vector where
      r: "remove p ?s0 = Inr s1"
      and av: "assign_values (membership s1) (c_mask ?c)
                 (map (\<lambda>v. v + next_community_index s1) ?v) = Inr vector"
      and a: "add cfg (Some (m + 1)) (s1 \<lparr> membership := vector \<rparr>) = Inr s'"
      by (auto simp: split_attempt_def Let_def split: sum.splits)
    note R = remove_Inr [OF r]
    have c0: "consistent cfg {} 0 ?s0" using c by simp
    from remove_consistent [OF c0 r] have c1: "consistent cfg {c_index ?c} 0 s1" by simp
    from c p have ok: "community_ok cfg (membership s) ?c" by (simp add: consistent_def)
    note mask = community_ok_mask [OF ok]
    from pm have lenv: "int (length ?v) = count_true (c_mask ?c)" and posv: "\<forall>v \<in> set ?v. 0 \<le> v"
      unfolding partition_ok_def by blast+
    let ?vals = "map (\<lambda>v. v + next_community_index s1) ?v"
    from av lenv R(2) have vec: "vector = scatter (membership s) (c_mask ?c) ?vals"
      by (simp add: assign_values_def)
    have "length (c_mask ?c) = length (membership s)" using mask by simp
    moreover have "length (filter id (c_mask ?c)) \<le> length ?vals"
      using lenv by (simp add: count_true_def)
    ultimately have sc: "length vector = length (membership s)"
      and sc_in: "\<And>x. x < length (membership s) \<Longrightarrow> c_mask ?c ! x \<Longrightarrow> vector ! x \<in> set ?vals"
      and sc_out: "\<And>x. x < length (membership s) \<Longrightarrow> \<not> c_mask ?c ! x
                     \<Longrightarrow> vector ! x = membership s ! x"
      using scatter_props [of "c_mask ?c" "membership s" ?vals] vec by blast+
    from np_max_Inr [OF m] posv have m0: "0 \<le> m" by auto
    have "consistent cfg {} (m + 1) (s1 \<lparr> membership := vector \<rparr>)"
    proof (rule relabel_consistent [OF c1])
      show "length vector = length (membership s1)" using sc R by simp
    next
      fix x assume x: "x < length vector" and "membership s1 ! x \<notin> {c_index ?c}"
      then have "\<not> c_mask ?c ! x" using mask sc R by simp
      with sc_out [of x] x sc R show "vector ! x = membership s1 ! x" by simp
    next
      fix x assume x: "x < length vector" and "membership s1 ! x \<in> {c_index ?c}"
      then have "c_mask ?c ! x" using mask sc R by simp
      with sc_in [of x] x sc have "vector ! x \<in> set ?vals" by simp
      then obtain v where v: "v \<in> set ?v" and vx: "vector ! x = v + next_community_index s1"
        by auto
      from v posv np_max_Inr(3) [OF m] have "0 \<le> v \<and> v \<le> m" by auto
      with vx show "next_community_index s1 \<le> vector ! x
          \<and> vector ! x < next_community_index s1 + (m + 1)" by simp
    qed
    from add_Some_consistent [OF this _ a] m0 have "consistent cfg {} 0 s'" by simp
    moreover from add_membership [OF a] sc have "length (membership s') = length (membership s)"
      by simp
    ultimately show ?thesis by simp
  qed
qed

lemma split_large_consistent:
  assumes c: "consistent cfg {} 0 s" and pm: "partition_ok partition_method"
    and run: "split_large partition_method cfg s = Some (Inr (s', did))"
  shows "consistent cfg {} 0 s' \<and> length (membership s') = length (membership s)"
proof (rule split_large_rule [OF run,
      of "\<lambda>t. consistent cfg {} 0 t \<and> length (membership t) = length (membership s)"])
  show "consistent cfg {} 0 s \<and> length (membership s) = length (membership s)"
    using c by simp
next
  fix t p t1 did
  assume "consistent cfg {} 0 t \<and> length (membership t) = length (membership s)"
    and "p < length (communities t)"
    and "split_attempt partition_method cfg t p = Inr (t1, did)"
  with split_attempt_consistent [OF _ pm, of cfg t p t1 did]
  show "consistent cfg {} 0 t1 \<and> length (membership t1) = length (membership s)" by simp
qed

lemma fold_relabel:
  assumes "\<forall>i \<in> set idxs. i < nxt" "\<forall>b \<in> set bins. 0 \<le> b"
  shows "length (fold (\<lambda>(old_index, community_bin) vector.
                         relabel vector old_index (nxt + community_bin))
                      (zip idxs bins) vector) = length vector
         \<and> (\<forall>x < length vector.
              fold (\<lambda>(old_index, community_bin) vector.
                      relabel vector old_index (nxt + community_bin))
                   (zip idxs bins) vector ! x
              = (case map_of (zip idxs bins) (vector ! x) of
                   Some b \<Rightarrow> nxt + b | None \<Rightarrow> vector ! x))"
  using assms
proof (induction idxs arbitrary: bins vector)
  case Nil
  then show ?case by simp
next
  case (Cons i idxs)
  show ?case
  proof (cases bins)
    case Nil
    then show ?thesis by simp
  next
    case (Cons b bins')
    let ?vec = "relabel vector i (nxt + b)"
    have len: "length ?vec = length vector" by (simp add: relabel_def)
    from Cons.prems Cons have small: "\<forall>i \<in> set idxs. i < nxt" and pos: "\<forall>b \<in> set bins'. 0 \<le> b"
      and b0: "0 \<le> b"
      by auto
    note IH = Cons.IH [OF small pos, of ?vec]
    have "fold (\<lambda>(old_index, community_bin) vector.
                  relabel vector old_index (nxt + community_bin))
               (zip idxs bins') ?vec ! x
          = (case map_of (zip (i # idxs) bins) (vector ! x) of
               Some b \<Rightarrow> nxt + b | None \<Rightarrow> vector ! x)" if x: "x < length vector" for x
    proof (cases "vector ! x = i")
      case True
      then have vx: "?vec ! x = nxt + b" using x by (simp add: relabel_def)
      with small b0 have "?vec ! x \<notin> set idxs" by auto
      then have "map_of (zip idxs bins') (?vec ! x) = None"
        by (metis map_of_SomeD not_Some_eq set_zip_leftD)
      with IH x len vx True Cons show ?thesis by simp
    next
      case False
      then have "?vec ! x = vector ! x" using x by (simp add: relabel_def)
      with IH x len False Cons show ?thesis by (simp split: option.splits)
    qed
    with IH len Cons show ?thesis by simp
  qed
qed

lemma pack_loop_props:
  assumes "pack_loop s p sizes idxs = Inr (s', sizes', idxs')"
    and "consistent cfg (set idxs) pending s"
    and "\<forall>q < p. q < length (communities s) \<longrightarrow> compliant (communities s ! q)"
    and "length sizes = length idxs"
  shows "consistent cfg (set idxs') pending s' \<and> (\<forall>c \<in> set (communities s'). compliant c)
         \<and> set (communities s') \<subseteq> set (communities s)
         \<and> next_community_index s' = next_community_index s \<and> membership s' = membership s
         \<and> split_attempts s' = split_attempts s
         \<and> length sizes' = length idxs'"
  using assms
proof (induction s p sizes idxs rule: pack_loop.induct)
  case (1 s p sizes idxs)
  note eq = "1.prems"(1) [unfolded pack_loop.simps [of s p sizes idxs]]
  show ?case
  proof (cases "p < length (communities s)")
    case False
    with eq have "s' = s" "sizes' = sizes" "idxs' = idxs" by simp_all
    moreover have "\<forall>c \<in> set (communities s). compliant c"
      using "1.prems"(3) False by (auto simp: in_set_conv_nth)
    ultimately show ?thesis using "1.prems" by simp
  next
    case inb: True
    let ?c = "communities s ! p"
    show ?thesis
    proof (cases "c_too_small ?c = 0 \<and> c_too_few ?c = 0")
      case True
      with inb eq
      have run: "pack_loop s (p + 1) sizes idxs = Inr (s', sizes', idxs')" by simp
      have "\<forall>q < p + 1. q < length (communities s) \<longrightarrow> compliant (communities s ! q)"
        using "1.prems"(3) True by (auto simp: compliant_def less_Suc_eq)
      from "1.IH"(1) [OF inb refl True run "1.prems"(2) this "1.prems"(4)]
      show ?thesis .
    next
      case False
      with inb eq obtain s1 where r: "remove p s = Inr s1"
        and run: "pack_loop s1 p (sizes @ [c_size ?c]) (idxs @ [c_index ?c])
                    = Inr (s', sizes', idxs')"
        by (auto simp: Let_def split: sum.splits)
      note R = remove_Inr [OF r]
      from remove_consistent [OF "1.prems"(2) r]
      have c1: "consistent cfg (set (idxs @ [c_index ?c])) pending s1" by simp
      have pre: "\<forall>q < p. q < length (communities s1) \<longrightarrow> compliant (communities s1 ! q)"
        using "1.prems"(3) R(1,5) by (auto simp: nth_append)
      have len: "length (sizes @ [c_size ?c]) = length (idxs @ [c_index ?c])"
        using "1.prems"(4) by simp
      from "1.IH"(2) [OF inb refl False r run c1 pre len]
      have "consistent cfg (set idxs') pending s' \<and> (\<forall>c \<in> set (communities s'). compliant c)
         \<and> set (communities s') \<subseteq> set (communities s1)
         \<and> next_community_index s' = next_community_index s1 \<and> membership s' = membership s1
         \<and> split_attempts s' = split_attempts s1
         \<and> length sizes' = length idxs'" .
      moreover have "set (communities s1) \<subseteq> set (communities s)"
        using R(5) by (auto dest: in_set_takeD in_set_dropD)
      ultimately show ?thesis using R by auto
    qed
  qed
qed

lemma relabel_orphans_consistent:
  assumes c: "consistent cfg (set idxs) 0 s"
    and len: "length bins = length idxs" and pos: "\<forall>b \<in> set bins. 0 \<le> b"
    and m: "np_max bins = Inr m"
    and a: "add cfg (Some (m + 1))
              (s \<lparr> membership :=
                     fold (\<lambda>(old_index, community_bin) vector.
                             relabel vector old_index (next_community_index s + community_bin))
                          (zip idxs bins) (membership s) \<rparr>) = Inr s'"
  shows "consistent cfg {} 0 s' \<and> length (membership s') = length (membership s)"
proof -
  let ?m' = "fold (\<lambda>(old_index, community_bin) vector.
                     relabel vector old_index (next_community_index s + community_bin))
                  (zip idxs bins) (membership s)"
  from c have small: "\<forall>i \<in> set idxs. i < next_community_index s"
    by (simp add: consistent_def)
  from fold_relabel [OF small pos, of "membership s"]
  have lenm: "length ?m' = length (membership s)"
    and nth: "\<And>x. x < length (membership s) \<Longrightarrow>
        ?m' ! x = (case map_of (zip idxs bins) (membership s ! x) of
                     Some b \<Rightarrow> next_community_index s + b | None \<Rightarrow> membership s ! x)"
    by blast+
  from np_max_Inr [OF m] pos have m0: "0 \<le> m" by auto
  have "consistent cfg {} (m + 1) (s \<lparr> membership := ?m' \<rparr>)"
  proof (rule relabel_consistent [OF c])
    show "length ?m' = length (membership s)" by (rule lenm)
  next
    fix x assume x: "x < length ?m'" and nin: "membership s ! x \<notin> set idxs"
    then have "map_of (zip idxs bins) (membership s ! x) = None"
      using len by (metis map_of_zip_is_None)
    moreover from x lenm have "x < length (membership s)" by simp
    ultimately show "?m' ! x = membership s ! x" using nth [of x] by simp
  next
    fix x assume x: "x < length ?m'" and isin: "membership s ! x \<in> set idxs"
    with map_of_zip_value [of idxs bins] len
    obtain b where b: "b \<in> set bins" and mo: "map_of (zip idxs bins) (membership s ! x) = Some b"
      by auto
    from b pos np_max_Inr(3) [OF m] have bm: "0 \<le> b \<and> b \<le> m" by auto
    from x lenm have "x < length (membership s)" by simp
    from nth [OF this] mo have "?m' ! x = next_community_index s + b" by simp
    with bm show "next_community_index s \<le> ?m' ! x \<and> ?m' ! x < next_community_index s + (m + 1)"
      by simp
  qed
  from add_Some_consistent [OF this _ a] m0 have "consistent cfg {} 0 s'" by simp
  moreover from add_membership [OF a] lenm have "length (membership s') = length (membership s)"
    by simp
  ultimately show ?thesis by simp
qed

lemma pack_consistent:
  assumes c: "consistent cfg {} 0 s" and bp: "bins_ok bin_pack"
    and run: "pack bin_pack cfg s = Inr s'"
  shows "consistent cfg {} 0 s' \<and> length (membership s') = length (membership s)"
proof -
  from run obtain s1 sizes idxs where pl: "pack_loop s 0 [] [] = Inr (s1, sizes, idxs)"
    by (auto simp: pack_def split: sum.splits)
  from pack_loop_props [OF pl, of cfg 0] c
  have c1: "consistent cfg (set idxs) 0 s1" and len: "length sizes = length idxs"
    and mem1: "membership s1 = membership s"
    by simp_all
  show ?thesis
  proof (cases "length idxs = 0")
    case True
    with run pl have "s' = s1" by (simp add: pack_def)
    with c1 True mem1 show ?thesis by simp
  next
    case False
    let ?bins = "bin_pack sizes (target_comm_size cfg)"
    from run pl False obtain m where m: "np_max ?bins = Inr m"
      and a: "add cfg (Some (m + 1))
                (s1 \<lparr> membership :=
                        fold (\<lambda>(small_community_index, community_bin) vector.
                                relabel vector small_community_index
                                        (next_community_index s1 + community_bin))
                             (zip idxs ?bins) (membership s1) \<rparr>) = Inr s'"
      by (auto simp: pack_def Let_def split: sum.splits)
    from bp len have lenb: "length ?bins = length idxs" and pos: "\<forall>b \<in> set ?bins. 0 \<le> b"
      by (simp_all add: bins_ok_def)
    from relabel_orphans_consistent [OF c1 lenb pos m a] mem1 show ?thesis by simp
  qed
qed

lemma fill_loop_props:
  assumes "fill_loop s p tot nodes idxs = Inr (s', tot', nodes', idxs')"
    and "consistent cfg (set idxs) pending s"
    and "\<forall>q < p. q < length (communities s) \<longrightarrow> c_too_few (communities s ! q) = 0"
    and "length nodes = length idxs"
  shows "consistent cfg (set idxs') pending s' \<and> (\<forall>c \<in> set (communities s'). c_too_few c = 0)
         \<and> set (communities s') \<subseteq> set (communities s)
         \<and> next_community_index s' = next_community_index s \<and> membership s' = membership s
         \<and> split_attempts s' = split_attempts s
         \<and> length nodes' = length idxs'"
  using assms
proof (induction s p tot nodes idxs rule: fill_loop.induct)
  case (1 s p tot nodes idxs)
  note eq = "1.prems"(1) [unfolded fill_loop.simps [of s p tot nodes idxs]]
  show ?case
  proof (cases "p < length (communities s)")
    case False
    with eq have "s' = s" "nodes' = nodes" "idxs' = idxs" by simp_all
    moreover have "\<forall>c \<in> set (communities s). c_too_few c = 0"
      using "1.prems"(3) False by (auto simp: in_set_conv_nth)
    ultimately show ?thesis using "1.prems" by simp
  next
    case inb: True
    let ?c = "communities s ! p"
    show ?thesis
    proof (cases "c_too_few ?c = 0")
      case True
      with inb eq
      have run: "fill_loop s (p + 1) tot nodes idxs = Inr (s', tot', nodes', idxs')" by simp
      have "\<forall>q < p + 1. q < length (communities s) \<longrightarrow> c_too_few (communities s ! q) = 0"
        using "1.prems"(3) True by (auto simp: less_Suc_eq)
      from "1.IH"(1) [OF inb refl True run "1.prems"(2) this "1.prems"(4)]
      show ?thesis .
    next
      case False
      with inb eq obtain s1 where r: "remove p s = Inr s1"
        and run: "fill_loop s1 p (tot + c_nodes ?c) (nodes @ [c_nodes ?c]) (idxs @ [c_index ?c])
                    = Inr (s', tot', nodes', idxs')"
        by (auto simp: Let_def split: sum.splits)
      note R = remove_Inr [OF r]
      from remove_consistent [OF "1.prems"(2) r]
      have c1: "consistent cfg (set (idxs @ [c_index ?c])) pending s1" by simp
      have pre: "\<forall>q < p. q < length (communities s1) \<longrightarrow> c_too_few (communities s1 ! q) = 0"
        using "1.prems"(3) R(1,5) by (auto simp: nth_append)
      have len: "length (nodes @ [c_nodes ?c]) = length (idxs @ [c_index ?c])"
        using "1.prems"(4) by simp
      from "1.IH"(2) [OF inb refl False r run c1 pre len]
      have "consistent cfg (set idxs') pending s' \<and> (\<forall>c \<in> set (communities s'). c_too_few c = 0)
         \<and> set (communities s') \<subseteq> set (communities s1)
         \<and> next_community_index s' = next_community_index s1 \<and> membership s' = membership s1
         \<and> split_attempts s' = split_attempts s1
         \<and> length nodes' = length idxs'" .
      moreover have "set (communities s1) \<subseteq> set (communities s)"
        using R(5) by (auto dest: in_set_takeD in_set_dropD)
      ultimately show ?thesis using R by auto
    qed
  qed
qed

lemma claim_candidates_take:
  "claim_candidates candidates min_nodes tot ps ns idxs = (ps', ns', idxs')
   \<Longrightarrow> \<exists>k. ps' = ps @ map (\<lambda>t. fst (snd (snd t))) (take k candidates)
          \<and> ns' = ns @ map fst (take k candidates)
          \<and> idxs' = idxs @ map (\<lambda>t. snd (snd (snd t))) (take k candidates)"
proof (induction candidates arbitrary: tot ps ns idxs)
  case Nil
  then show ?case by simp
next
  case (Cons t candidates)
  obtain n sz p i where t: "t = (n, sz, p, i)" by (cases t) auto
  show ?case
  proof (cases "tot + n \<ge> min_nodes")
    case True
    with Cons.prems t have "ps' = ps @ [p]" "ns' = ns @ [n]" "idxs' = idxs @ [i]" by simp_all
    then show ?thesis using t by (intro exI [of _ 1]) simp
  next
    case False
    with Cons.prems t have "claim_candidates candidates min_nodes (tot + n)
        (ps @ [p]) (ns @ [n]) (idxs @ [i]) = (ps', ns', idxs')" by simp
    from Cons.IH [OF this] obtain k where
      "ps' = (ps @ [p]) @ map (\<lambda>t. fst (snd (snd t))) (take k candidates)
       \<and> ns' = (ns @ [n]) @ map fst (take k candidates)
       \<and> idxs' = (idxs @ [i]) @ map (\<lambda>t. snd (snd (snd t))) (take k candidates)" by blast
    then show ?thesis using t by (intro exI [of _ "Suc k"]) simp
  qed
qed

lemma borrow_consistent:
  assumes c1: "consistent cfg (set few_idxs) 0 s1" and len1: "length few_nodes = length few_idxs"
    and b: "borrow min_nodes s1 tot few_nodes few_idxs = Inr (s2, nodes, idxs)"
  shows "consistent cfg (set idxs) 0 s2 \<and> length nodes = length idxs
         \<and> membership s2 = membership s1"
proof -
  let ?cs = "communities s1"
  let ?mk = "\<lambda>position. (c_nodes (?cs ! position), c_size (?cs ! position), position,
                          c_index (?cs ! position))"
  let ?ps0 = "filter (\<lambda>position. c_too_few (?cs ! position) = 0) [0 ..< length ?cs]"
  have cands: "fill_candidates s1 = sort (map ?mk ?ps0)" by (simp add: fill_candidates_def)
  obtain ps nodes' idxs' where cl:
    "claim_candidates (fill_candidates s1) min_nodes tot [] few_nodes few_idxs = (ps, nodes', idxs')"
    using prod_cases3 by blast
  from b cl have r: "remove_positions (rev (sort ps)) s1 = Inr s2"
    and n': "nodes' = nodes" and i': "idxs' = idxs"
    by (auto simp: borrow_def split: sum.splits)
  from claim_candidates_take [OF cl] n' i' obtain k where
    ps: "ps = map (\<lambda>t. fst (snd (snd t))) (take k (fill_candidates s1))"
    and nodes: "nodes = few_nodes @ map fst (take k (fill_candidates s1))"
    and idxs: "idxs = few_idxs @ map (\<lambda>t. snd (snd (snd t))) (take k (fill_candidates s1))"
    by auto
  have mem: "\<exists>p. t = ?mk p" if "t \<in> set (take k (fill_candidates s1))" for t
  proof -
    from that have "t \<in> set (fill_candidates s1)" by (rule in_set_takeD)
    then have "t \<in> set (map ?mk ?ps0)" unfolding cands by (simp only: set_sort)
    then show ?thesis by (auto simp only: set_map)
  qed
  have idx_eq: "map (\<lambda>t. snd (snd (snd t))) (take k (fill_candidates s1))
      = map (\<lambda>p. c_index (?cs ! p)) ps"
    unfolding ps map_map comp_def
  proof (rule map_cong [OF refl])
    fix t assume "t \<in> set (take k (fill_candidates s1))"
    from mem [OF this] obtain p where "t = ?mk p" by blast
    then show "snd (snd (snd t)) = c_index (?cs ! fst (snd (snd t)))" by simp
  qed
  have "map (\<lambda>t. fst (snd (snd t))) (map ?mk ?ps0) = ?ps0"
    by (simp add: comp_def)
  moreover have "distinct ?ps0" by simp
  ultimately have "distinct (map (\<lambda>t. fst (snd (snd t))) (map ?mk ?ps0))" by simp
  then have "distinct (map ?mk ?ps0) \<and> inj_on (\<lambda>t. fst (snd (snd t))) (set (map ?mk ?ps0))"
    by (simp only: distinct_map)
  then have "distinct (map (\<lambda>t. fst (snd (snd t))) (fill_candidates s1))"
    unfolding cands by (simp only: distinct_map distinct_sort set_sort)
  then have "distinct (take k (map (\<lambda>t. fst (snd (snd t))) (fill_candidates s1)))"
    by (rule distinct_take)
  then have dps: "distinct ps" unfolding ps by (simp only: take_map)
  then have "sorted_wrt (<) (sort ps)"
    by (simp add: strict_sorted_iff)
  then have desc: "sorted_wrt (>) (rev (sort ps))" by (simp add: sorted_wrt_rev)
  from remove_positions_consistent [OF desc c1 r]
  have "consistent cfg (set few_idxs \<union> (\<lambda>p. c_index (?cs ! p)) ` set (rev (sort ps))) 0 s2" .
  moreover have "set few_idxs \<union> (\<lambda>p. c_index (?cs ! p)) ` set (rev (sort ps)) = set idxs"
    unfolding idxs idx_eq by simp
  ultimately have c2: "consistent cfg (set idxs) 0 s2" by simp
  have "length nodes = length idxs" unfolding nodes idxs using len1 by simp
  with c2 remove_positions_next [OF r] show ?thesis by blast
qed

lemma fill_consistent:
  assumes c: "consistent cfg {} 0 s" and bf: "bins_ok bin_fill"
    and run: "fill bin_fill cfg s = Inr s'"
  shows "consistent cfg {} 0 s' \<and> length (membership s') = length (membership s)"
proof -
  from run obtain min_nodes where mn: "min_comm_nodes cfg = Some min_nodes"
    by (auto simp: fill_def split: option.splits)
  from run mn obtain s1 tot few_nodes few_idxs where
    fl: "fill_loop s 0 0 [] [] = Inr (s1, tot, few_nodes, few_idxs)"
    by (auto simp: fill_def split: sum.splits)
  from fill_loop_props [OF fl, of cfg 0] c
  have c1: "consistent cfg (set few_idxs) 0 s1" and len1: "length few_nodes = length few_idxs"
    and mem1: "membership s1 = membership s"
    by simp_all
  show ?thesis
  proof (cases "length few_idxs = 0")
    case True
    with run mn fl have "s' = s1" by (simp add: fill_def)
    with c1 True mem1 show ?thesis by simp
  next
    case nonempty: False
    let ?br = "if must_complete_cover cfg \<and> tot < min_nodes
               then borrow min_nodes s1 tot few_nodes few_idxs
               else Inr (s1, few_nodes, few_idxs)"
    from run mn fl nonempty obtain s2 nodes idxs m where
      br: "?br = Inr (s2, nodes, idxs)"
      and m: "np_max (bin_fill nodes min_nodes) = Inr m"
      and a: "add cfg (Some (m + 1))
                  (s2 \<lparr> membership :=
                          fold (\<lambda>(few_community_index, community_bin) vector.
                                  relabel vector few_community_index
                                          (next_community_index s2 + community_bin))
                               (zip idxs (bin_fill nodes min_nodes)) (membership s2) \<rparr>) = Inr s'"
      by (simp add: fill_def Let_def split: sum.splits prod.splits)
    have "consistent cfg (set idxs) 0 s2 \<and> length nodes = length idxs
        \<and> membership s2 = membership s1"
    proof (cases "must_complete_cover cfg \<and> tot < min_nodes")
      case True
      with br have "borrow min_nodes s1 tot few_nodes few_idxs = Inr (s2, nodes, idxs)" by simp
      from borrow_consistent [OF c1 len1 this] show ?thesis .
    next
      case False
      with br c1 len1 show ?thesis by auto
    qed
    then have c2: "consistent cfg (set idxs) 0 s2" and len: "length nodes = length idxs"
      and mem2: "membership s2 = membership s1"
      by simp_all
    from bf len have lenb: "length (bin_fill nodes min_nodes) = length idxs"
      and pos: "\<forall>b \<in> set (bin_fill nodes min_nodes). 0 \<le> b"
      by (simp_all add: bins_ok_def)
    from relabel_orphans_consistent [OF c2 lenb pos m a] mem1 mem2 show ?thesis by simp
  qed
qed

lemma improve_consistent:
  assumes c: "consistent cfg {} 0 s" and pm: "partition_ok partition_method"
    and run: "improve partition_method cfg s = Some (Inr s')"
  shows "consistent cfg {} 0 s' \<and> length (membership s') = length (membership s)"
proof (rule improve_rule [OF run,
      of "\<lambda>t. consistent cfg {} 0 t \<and> length (membership t) = length (membership s)"])
  show "consistent cfg {} 0 s \<and> length (membership s) = length (membership s)"
    using c by simp
next
  fix t t1 did
  assume "consistent cfg {} 0 t \<and> length (membership t) = length (membership s)"
    and "merge_few_or_small partition_method cfg t = Inr (t1, did)"
  with merge_few_or_small_consistent [OF _ pm, of cfg t t1 did]
  show "consistent cfg {} 0 t1 \<and> length (membership t1) = length (membership s)" by simp
next
  fix t t1 did
  assume "consistent cfg {} 0 t \<and> length (membership t) = length (membership s)"
    and "split_large partition_method cfg t = Some (Inr (t1, did))"
  with split_large_consistent [OF _ pm, of cfg t t1 did]
  show "consistent cfg {} 0 t1 \<and> length (membership t1) = length (membership s)" by simp
qed

lemma reachable_consistent:
  assumes pm: "partition_ok partition_method" and bp: "bins_ok bin_pack" and bf: "bins_ok bin_fill"
    and nonneg: "\<forall>v \<in> set membership_vector. 0 \<le> v"
    and r: "reachable partition_method bin_pack bin_fill cfg membership_vector s"
  shows "consistent cfg {} 0 s \<and> length (membership s) = length membership_vector"
  using r
proof (induction rule: reachable.induct)
  case (constructed s)
  from Improver_init_consistent [OF this nonneg] show ?case by simp
next
  case (merged s s' did_improve)
  with merge_few_or_small_consistent [OF _ pm, of cfg s s' did_improve] show ?case by simp
next
  case (split s s' did_split)
  with split_large_consistent [OF _ pm, of cfg s s' did_split] show ?case by simp
next
  case (improved s s')
  with improve_consistent [OF _ pm, of cfg s s'] show ?case by simp
next
  case (packed s s')
  with pack_consistent [OF _ bp, of cfg s s'] show ?case by simp
next
  case (filled s s')
  with fill_consistent [OF _ bf, of cfg s s'] show ?case by simp
qed

lemma attempts_ok_membership [simp]:
  "attempts_ok (s \<lparr> membership := vector \<rparr>) = attempts_ok s"
  by (simp add: attempts_ok_def)

lemma add_community_attempts:
  assumes "attempts_ok s"
  shows "attempts_ok (add_community cfg s)"
proof -
  from assms have "next_community_index s \<notin> c_index ` set (communities s)"
    and "next_community_index s \<notin> set (split_attempts s)"
    by (auto simp: attempts_ok_def)
  with assms show ?thesis
    unfolding attempts_ok_def by (simp add: image_iff) fastforce
qed

lemma add_loop_attempts: "attempts_ok s \<Longrightarrow> attempts_ok (add_loop n cfg s)"
  by (induction n arbitrary: s) (auto intro: add_community_attempts)

lemma add_attempts: "attempts_ok s \<Longrightarrow> add cfg count s = Inr s' \<Longrightarrow> attempts_ok s'"
  by (auto simp: add_def add_loop_attempts split: option.splits if_splits sum.splits)

lemma remove_attempts:
  assumes a: "attempts_ok s" and r: "remove p s = Inr s'"
  shows "attempts_ok s'"
proof -
  note R = remove_Inr [OF r]
  from a have d: "distinct (map c_index (communities s))" by (simp add: attempts_ok_def)
  note D = drop_nth_set [OF R(1) d]
  have sub: "set (communities s') \<subseteq> set (communities s)" using D(3) R(5) by auto
  show ?thesis
    unfolding attempts_ok_def
  proof (intro conjI)
    show "distinct (split_attempts s')" using a R by (simp add: attempts_ok_def)
    show "distinct (map c_index (communities s'))" using D(1) R(5) by simp
    show "\<forall>c\<in>set (communities s'). c_index c < next_community_index s'"
      using a sub R(3) by (auto simp: attempts_ok_def)
    show "\<forall>i\<in>set (split_attempts s'). i < next_community_index s'"
      using a R by (simp add: attempts_ok_def)
    show "\<forall>c\<in>set (communities s'). c_monolithic c = (c_index c \<in> set (split_attempts s'))"
      using a sub R(4) by (auto simp: attempts_ok_def)
  qed
qed

lemma remove_positions_attempts:
  "attempts_ok s \<Longrightarrow> remove_positions ps s = Inr s' \<Longrightarrow> attempts_ok s'"
proof (induction ps arbitrary: s)
  case Nil
  then show ?case by simp
next
  case (Cons p ps)
  from Cons.prems(2) obtain s1 where r: "remove p s = Inr s1"
    and rest: "remove_positions ps s1 = Inr s'"
    by (auto split: sum.splits)
  from Cons.IH [OF remove_attempts [OF Cons.prems(1) r] rest] show ?case .
qed

lemma merge_few_or_small_attempts:
  assumes a: "attempts_ok s" and mg: "merge_few_or_small partition_method cfg s = Inr (s', did)"
  shows "attempts_ok s'"
proof (cases "length (map (\<lambda>position. communities s ! position)
                 (filter (\<lambda>position. few_or_small (communities s ! position))
                         [0 ..< length (communities s)])) < 2")
  case True
  with mg have "s' = s" by (simp add: merge_few_or_small_def Let_def)
  with a show ?thesis by simp
next
  case False
  with mg obtain vector ps s2 n where
    r: "remove_positions ps (s \<lparr> membership := vector \<rparr>) = Inr s2"
    and ad: "add cfg (Some n) s2 = Inr s'"
    by (auto simp: merge_few_or_small_def Let_def split: sum.splits)
  from a have "attempts_ok (s \<lparr> membership := vector \<rparr>)" by simp
  from add_attempts [OF remove_positions_attempts [OF this r] ad] show ?thesis .
qed

lemma split_attempt_cases:
  assumes att: "split_attempt partition_method cfg s p = Inr (s', did)"
  obtains (flagged) "\<not> did"
      "s' = s \<lparr> split_attempts := split_attempts s @ [c_index (communities s ! p)],
                communities := (communities s)[p := (communities s ! p) \<lparr> c_monolithic := True \<rparr>] \<rparr>"
      "np_max (partition_method (Subgraph (c_mask (communities s ! p))
         (map_option (\<lambda>sizes. masked sizes (c_mask (communities s ! p))) (node_sizes cfg)))) = Inr 0"
    | (divided) s1 vector m where "did"
      "remove p (s \<lparr> split_attempts := split_attempts s @ [c_index (communities s ! p)] \<rparr>) = Inr s1"
      "np_max (partition_method (Subgraph (c_mask (communities s ! p))
         (map_option (\<lambda>sizes. masked sizes (c_mask (communities s ! p))) (node_sizes cfg)))) = Inr m"
      "m + 1 \<noteq> 1"
      "assign_values (membership s1) (c_mask (communities s ! p))
         (map (\<lambda>v. v + next_community_index s1)
            (partition_method (Subgraph (c_mask (communities s ! p))
               (map_option (\<lambda>sizes. masked sizes (c_mask (communities s ! p))) (node_sizes cfg)))))
         = Inr vector"
      "add cfg (Some (m + 1)) (s1 \<lparr> membership := vector \<rparr>) = Inr s'"
proof -
  let ?v = "partition_method (Subgraph (c_mask (communities s ! p))
         (map_option (\<lambda>sizes. masked sizes (c_mask (communities s ! p))) (node_sizes cfg)))"
  from att obtain m where m: "np_max ?v = Inr m"
    by (auto simp: split_attempt_def Let_def split: sum.splits)
  show thesis
  proof (cases "m + 1 = 1")
    case True
    then have "m = 0" by simp
    with att m flagged show thesis by (simp add: split_attempt_def Let_def)
  next
    case False
    with att m divided show thesis
      by (auto simp: split_attempt_def Let_def split: sum.splits)
  qed
qed

lemma split_attempt_attempts:
  assumes a: "attempts_ok s" and p: "p < length (communities s)"
    and nm: "\<not> c_monolithic (communities s ! p)"
    and att: "split_attempt partition_method cfg s p = Inr (s', did)"
  shows "attempts_ok s'"
proof -
  let ?c = "communities s ! p"
  let ?s0 = "s \<lparr> split_attempts := split_attempts s @ [c_index ?c] \<rparr>"
  from p have cin: "?c \<in> set (communities s)" by simp
  from a cin nm have fresh: "c_index ?c \<notin> set (split_attempts s)"
    and below: "c_index ?c < next_community_index s"
    by (auto simp: attempts_ok_def)
  from a have d: "distinct (map c_index (communities s))" by (simp add: attempts_ok_def)
  have uniq: "\<And>c. c \<in> set (communities s) \<Longrightarrow> c_index c = c_index ?c \<Longrightarrow> c = ?c"
    using d cin by (meson distinct_map inj_onD)
  from att show ?thesis
  proof (cases rule: split_attempt_cases)
    case flagged
    let ?c' = "?c \<lparr> c_monolithic := True \<rparr>"
    let ?cs' = "(communities s)[p := ?c']"
    have idx: "map c_index ?cs' = map c_index (communities s)"
      using p by (simp add: map_update_same)
    have mem: "\<And>c. c \<in> set ?cs' \<Longrightarrow> c = ?c' \<or> (c \<in> set (communities s) \<and> c \<noteq> ?c)"
    proof -
      fix c assume "c \<in> set ?cs'"
      then obtain q where q: "q < length ?cs'" and c: "c = ?cs' ! q"
        by (auto simp: in_set_conv_nth)
      show "c = ?c' \<or> (c \<in> set (communities s) \<and> c \<noteq> ?c)"
      proof (cases "q = p")
        case True
        with q c show ?thesis by simp
      next
        case False
        with q c have "c = communities s ! q" by simp
        moreover from False q p d have "communities s ! q \<noteq> ?c"
          by (metis distinct_map length_list_update nth_eq_iff_index_eq)
        ultimately show ?thesis using q by simp
      qed
    qed
    show ?thesis
      unfolding attempts_ok_def flagged(2)
    proof (intro conjI)
      show "distinct (split_attempts (s\<lparr>split_attempts := split_attempts s @ [c_index ?c],
          communities := ?cs'\<rparr>))"
        using a fresh by (simp add: attempts_ok_def)
      show "distinct (map c_index (communities (s\<lparr>split_attempts := split_attempts s @ [c_index ?c],
          communities := ?cs'\<rparr>)))"
        using d idx by simp
      show "\<forall>c\<in>set (communities (s\<lparr>split_attempts := split_attempts s @ [c_index ?c],
          communities := ?cs'\<rparr>)).
          c_index c < next_community_index (s\<lparr>split_attempts := split_attempts s @ [c_index ?c],
          communities := ?cs'\<rparr>)"
      proof
        fix c assume "c \<in> set (communities (s\<lparr>split_attempts := split_attempts s @ [c_index ?c],
          communities := ?cs'\<rparr>))"
        then have "c = ?c' \<or> (c \<in> set (communities s) \<and> c \<noteq> ?c)" using mem by simp
        then have "c_index c < next_community_index s"
          using a below by (auto simp: attempts_ok_def)
        then show "c_index c < next_community_index (s\<lparr>split_attempts :=
            split_attempts s @ [c_index ?c], communities := ?cs'\<rparr>)" by simp
      qed
      show "\<forall>i\<in>set (split_attempts (s\<lparr>split_attempts := split_attempts s @ [c_index ?c],
          communities := ?cs'\<rparr>)).
          i < next_community_index (s\<lparr>split_attempts := split_attempts s @ [c_index ?c],
          communities := ?cs'\<rparr>)"
        using a below by (auto simp: attempts_ok_def)
      show "\<forall>c\<in>set (communities (s\<lparr>split_attempts := split_attempts s @ [c_index ?c],
          communities := ?cs'\<rparr>)).
          c_monolithic c = (c_index c \<in> set (split_attempts (s\<lparr>split_attempts :=
            split_attempts s @ [c_index ?c], communities := ?cs'\<rparr>)))"
      proof
        fix c assume "c \<in> set (communities (s\<lparr>split_attempts := split_attempts s @ [c_index ?c],
          communities := ?cs'\<rparr>))"
        then have "c = ?c' \<or> (c \<in> set (communities s) \<and> c \<noteq> ?c)" using mem by simp
        then show "c_monolithic c = (c_index c \<in> set (split_attempts (s\<lparr>split_attempts :=
            split_attempts s @ [c_index ?c], communities := ?cs'\<rparr>)))"
        proof
          assume "c = ?c'"
          then show ?thesis by simp
        next
          assume c: "c \<in> set (communities s) \<and> c \<noteq> ?c"
          with uniq have "c_index c \<noteq> c_index ?c" by blast
          with a c show ?thesis by (auto simp: attempts_ok_def)
        qed
      qed
    qed
  next
    case (divided s1 vector m)
    note R = remove_Inr [OF divided(2)]
    have cs1: "communities s1 = take p (communities s) @ drop (Suc p) (communities s)"
      using R(5) by simp
    note D = drop_nth_set [OF p d]
    have sub: "set (communities s1) \<subseteq> set (communities s)" using D(3) cs1 by auto
    have gone: "c_index ?c \<notin> c_index ` set (communities s1)" using D(2) cs1 by simp
    have a1: "attempts_ok s1"
      unfolding attempts_ok_def
    proof (intro conjI)
      show "distinct (split_attempts s1)" using a fresh R(4) by (simp add: attempts_ok_def)
      show "distinct (map c_index (communities s1))" using D(1) cs1 by simp
      show "\<forall>c\<in>set (communities s1). c_index c < next_community_index s1"
        using a sub R(3) by (auto simp: attempts_ok_def)
      show "\<forall>i\<in>set (split_attempts s1). i < next_community_index s1"
        using a below R(3,4) by (auto simp: attempts_ok_def)
      show "\<forall>c\<in>set (communities s1). c_monolithic c = (c_index c \<in> set (split_attempts s1))"
      proof
        fix c assume c: "c \<in> set (communities s1)"
        with gone have "c_index c \<noteq> c_index ?c" by (metis imageI)
        with a c sub R(4) show "c_monolithic c = (c_index c \<in> set (split_attempts s1))"
          by (auto simp: attempts_ok_def)
      qed
    qed
    then have "attempts_ok (s1 \<lparr> membership := vector \<rparr>)" by simp
    from add_attempts [OF this divided(6)] show ?thesis .
  qed
qed

lemma split_large_attempts:
  assumes a: "attempts_ok s" and run: "split_large partition_method cfg s = Some (Inr (s', did))"
  shows "attempts_ok s'"
  using split_large_rule [OF run, of attempts_ok] a split_attempt_attempts by blast

lemma improve_attempts:
  assumes a: "attempts_ok s" and run: "improve partition_method cfg s = Some (Inr s')"
  shows "attempts_ok s'"
  using improve_rule [OF run, of attempts_ok] a merge_few_or_small_attempts split_large_attempts
  by blast

lemma pack_loop_rule:
  assumes "pack_loop s p sizes idxs = Inr (s', sizes', idxs')" and "I s"
    and "\<And>t q t1. I t \<Longrightarrow> remove q t = Inr t1 \<Longrightarrow> I t1"
  shows "I s'"
  using assms(1,2)
proof (induction s p sizes idxs rule: pack_loop.induct)
  case (1 s p sizes idxs)
  note eq = "1.prems"(1) [unfolded pack_loop.simps [of s p sizes idxs]]
  show ?case
  proof (cases "p < length (communities s)")
    case False
    with eq "1.prems"(2) show ?thesis by simp
  next
    case inb: True
    let ?c = "communities s ! p"
    show ?thesis
    proof (cases "c_too_small ?c = 0 \<and> c_too_few ?c = 0")
      case True
      with inb eq have "pack_loop s (p + 1) sizes idxs = Inr (s', sizes', idxs')" by simp
      from "1.IH"(1) [OF inb refl True this "1.prems"(2)] show ?thesis .
    next
      case False
      with inb eq obtain s1 where r: "remove p s = Inr s1"
        and run: "pack_loop s1 p (sizes @ [c_size ?c]) (idxs @ [c_index ?c])
                    = Inr (s', sizes', idxs')"
        by (auto simp: Let_def split: sum.splits)
      from "1.IH"(2) [OF inb refl False r run assms(3) [OF "1.prems"(2) r]] show ?thesis .
    qed
  qed
qed

lemma fill_loop_rule:
  assumes "fill_loop s p tot nodes idxs = Inr (s', tot', nodes', idxs')" and "I s"
    and "\<And>t q t1. I t \<Longrightarrow> remove q t = Inr t1 \<Longrightarrow> I t1"
  shows "I s'"
  using assms(1,2)
proof (induction s p tot nodes idxs rule: fill_loop.induct)
  case (1 s p tot nodes idxs)
  note eq = "1.prems"(1) [unfolded fill_loop.simps [of s p tot nodes idxs]]
  show ?case
  proof (cases "p < length (communities s)")
    case False
    with eq "1.prems"(2) show ?thesis by simp
  next
    case inb: True
    let ?c = "communities s ! p"
    show ?thesis
    proof (cases "c_too_few ?c = 0")
      case True
      with inb eq have "fill_loop s (p + 1) tot nodes idxs = Inr (s', tot', nodes', idxs')"
        by simp
      from "1.IH"(1) [OF inb refl True this "1.prems"(2)] show ?thesis .
    next
      case False
      with inb eq obtain s1 where r: "remove p s = Inr s1"
        and run: "fill_loop s1 p (tot + c_nodes ?c) (nodes @ [c_nodes ?c]) (idxs @ [c_index ?c])
                    = Inr (s', tot', nodes', idxs')"
        by (auto simp: Let_def split: sum.splits)
      from "1.IH"(2) [OF inb refl False r run assms(3) [OF "1.prems"(2) r]] show ?thesis .
    qed
  qed
qed

lemma pack_attempts:
  assumes a: "attempts_ok s" and run: "pack bin_pack cfg s = Inr s'"
  shows "attempts_ok s'"
proof -
  from run obtain s1 sizes idxs where pl: "pack_loop s 0 [] [] = Inr (s1, sizes, idxs)"
    by (auto simp: pack_def split: sum.splits)
  from pack_loop_rule [OF pl, of attempts_ok] a remove_attempts have a1: "attempts_ok s1"
    by blast
  show ?thesis
  proof (cases "length idxs = 0")
    case True
    with run pl a1 show ?thesis by (simp add: pack_def)
  next
    case False
    with run pl obtain vector n where "add cfg (Some n) (s1 \<lparr> membership := vector \<rparr>) = Inr s'"
      by (auto simp: pack_def Let_def split: sum.splits)
    from add_attempts [OF _ this] a1 show ?thesis by simp
  qed
qed

lemma fill_attempts:
  assumes a: "attempts_ok s" and run: "fill bin_fill cfg s = Inr s'"
  shows "attempts_ok s'"
proof -
  from run obtain min_nodes where mn: "min_comm_nodes cfg = Some min_nodes"
    by (auto simp: fill_def split: option.splits)
  from run mn obtain s1 tot few_nodes few_idxs where
    fl: "fill_loop s 0 0 [] [] = Inr (s1, tot, few_nodes, few_idxs)"
    by (auto simp: fill_def split: sum.splits)
  from fill_loop_rule [OF fl, of attempts_ok] a remove_attempts have a1: "attempts_ok s1"
    by blast
  show ?thesis
  proof (cases "length few_idxs = 0")
    case True
    with run mn fl a1 show ?thesis by (simp add: fill_def)
  next
    case False
    let ?br = "if must_complete_cover cfg \<and> tot < min_nodes
               then borrow min_nodes s1 tot few_nodes few_idxs
               else Inr (s1, few_nodes, few_idxs)"
    from run mn fl False obtain s2 nodes idxs vector n where
      br: "?br = Inr (s2, nodes, idxs)"
      and ad: "add cfg (Some n) (s2 \<lparr> membership := vector \<rparr>) = Inr s'"
      by (simp add: fill_def Let_def split: sum.splits prod.splits)
    have "attempts_ok s2"
    proof (cases "must_complete_cover cfg \<and> tot < min_nodes")
      case True
      with br obtain ps where "remove_positions ps s1 = Inr s2"
        by (auto simp: borrow_def split: prod.splits sum.splits)
      from remove_positions_attempts [OF a1 this] show ?thesis .
    next
      case False
      with br a1 show ?thesis by simp
    qed
    from add_attempts [OF _ ad] this show ?thesis by simp
  qed
qed

lemma Improver_init_attempts:
  assumes "Improver_init cfg vector = Inr s"
  shows "attempts_ok s"
proof -
  let ?s0 = "\<lparr> membership = vector, communities = [], too_few = 0, too_small = 0,
               too_large = 0, next_community_index = 0, split_attempts = [] \<rparr>"
  from assms have "add cfg None ?s0 = Inr s"
    by (auto simp: Improver_init_def split: sum.splits if_splits)
  moreover have "attempts_ok ?s0" by (simp add: attempts_ok_def)
  ultimately show ?thesis by (rule add_attempts [rotated])
qed

lemma reachable_attempts:
  assumes "reachable partition_method bin_pack bin_fill cfg membership_vector s"
  shows "attempts_ok s"
  using assms
proof (induction rule: reachable.induct)
  case (constructed s)
  then show ?case by (rule Improver_init_attempts)
next
  case (merged s s' did_improve)
  then show ?case using merge_few_or_small_attempts by blast
next
  case (split s s' did_split)
  then show ?case using split_large_attempts by blast
next
  case (improved s s')
  then show ?case using improve_attempts by blast
next
  case (packed s s')
  then show ?case using pack_attempts by blast
next
  case (filled s s')
  then show ?case using fill_attempts by blast
qed

lemma add_loop_communities:
  "\<exists>new. communities (add_loop n cfg s) = communities s @ new
         \<and> (\<forall>c \<in> set new. next_community_index s \<le> c_index c)"
proof (induction n arbitrary: s)
  case 0
  then show ?case by simp
next
  case (Suc n)
  from Suc [of "add_community cfg s"] obtain new where
    "communities (add_loop n cfg (add_community cfg s))
       = communities (add_community cfg s) @ new"
    and "\<forall>c \<in> set new. next_community_index (add_community cfg s) \<le> c_index c"
    by blast
  then show ?case
    by (intro exI [of _ "community_of cfg (membership s) (next_community_index s) # new"]) auto
qed

lemma add_loop_frame [simp]:
  "split_attempts (add_loop n cfg s) = split_attempts s"
  "next_community_index (add_loop n cfg s) = next_community_index s + int n"
  by (induction n arbitrary: s) auto

lemma add_Some_communities:
  assumes "add cfg (Some n) s = Inr s'"
  shows "\<exists>new. communities s' = communities s @ new
           \<and> (\<forall>c \<in> set new. next_community_index s \<le> c_index c)"
    and "split_attempts s' = split_attempts s"
    and "next_community_index s \<le> next_community_index s'"
proof -
  from assms have s': "s' = add_loop (nat n) cfg s" by (auto simp: add_def split: if_splits)
  from add_loop_communities [of "nat n" cfg s] s'
  show "\<exists>new. communities s' = communities s @ new
           \<and> (\<forall>c \<in> set new. next_community_index s \<le> c_index c)" by simp
  from s' show "split_attempts s' = split_attempts s" by simp
  from s' show "next_community_index s \<le> next_community_index s'" by simp
qed

lemma split_attempt_log:
  assumes "split_attempt partition_method cfg s p = Inr (s', did)"
  shows "split_attempts s' = split_attempts s @ [c_index (communities s ! p)]"
  using assms
proof (cases rule: split_attempt_cases)
  case flagged
  then show ?thesis by simp
next
  case (divided s1 vector m)
  from add_Some_communities(2) [OF divided(6)] remove_Inr(4) [OF divided(2)]
  show ?thesis by simp
qed

lemma split_large_log:
  assumes run: "split_large partition_method cfg s = Some (Inr (s', did))"
  shows "\<exists>new. split_attempts s' = split_attempts s @ new"
proof (rule split_large_rule [OF run, of "\<lambda>t. \<exists>new. split_attempts t = split_attempts s @ new"])
  show "\<exists>new. split_attempts s = split_attempts s @ new" by simp
next
  fix t p t1 did
  assume "\<exists>new. split_attempts t = split_attempts s @ new"
    and "split_attempt partition_method cfg t p = Inr (t1, did)"
  with split_attempt_log [of partition_method cfg t p t1 did]
  show "\<exists>new. split_attempts t1 = split_attempts s @ new" by auto
qed

lemma split_large_flags_all:
  assumes run: "split_large partition_method cfg s = Some (Inr (s', did))"
  shows "\<forall>c \<in> set (communities s'). c_too_large c \<noteq> 0 \<longrightarrow> c_monolithic c"
proof -
  let ?I = "\<lambda>t p. \<forall>q < p. q < length (communities t)
              \<longrightarrow> c_too_large (communities t ! q) \<noteq> 0 \<longrightarrow> c_monolithic (communities t ! q)"
  from run have "split_large_loop partition_method cfg s 0 False = Some (Inr (s', did))"
    by (simp add: split_large_def)
  then have "\<exists>p. length (communities s') \<le> p \<and> ?I s' p"
  proof (rule split_large_loop_rule [where I = ?I])
    show "?I s 0" by simp
  next
    fix t p
    assume "?I t p" and "p < length (communities t)"
      and "c_too_large (communities t ! p) = 0 \<or> c_monolithic (communities t ! p)"
    then show "?I t (p + 1)" by (auto simp: less_Suc_eq)
  next
    fix t p t1 did
    assume I: "?I t p" and p: "p < length (communities t)"
      and att: "split_attempt partition_method cfg t p = Inr (t1, did)"
    from att show "?I t1 (if did then p else p + 1)"
    proof (cases rule: split_attempt_cases)
      case flagged
      have "?I t1 (p + 1)"
      proof (intro allI impI)
        fix q assume "q < p + 1" and "q < length (communities t1)"
          and "c_too_large (communities t1 ! q) \<noteq> 0"
        then show "c_monolithic (communities t1 ! q)"
          using I p flagged(2) by (cases "q = p") auto
      qed
      with flagged(1) show ?thesis by simp
    next
      case (divided s1 vector m)
      from add_Some_communities(1) [OF divided(6)] remove_Inr(5) [OF divided(2)]
      obtain new where cs: "communities t1
          = (take p (communities t) @ drop (Suc p) (communities t)) @ new"
        by auto
      have "?I t1 p"
      proof (intro allI impI)
        fix q assume q: "q < p" and "q < length (communities t1)"
          and large: "c_too_large (communities t1 ! q) \<noteq> 0"
        from q p cs have "communities t1 ! q = communities t ! q"
          by (simp add: nth_append)
        with I q p large show "c_monolithic (communities t1 ! q)" by simp
      qed
      with divided(1) show ?thesis by simp
    qed
  qed
  then show ?thesis by (auto simp: in_set_conv_nth)
qed

lemma split_large_tries_all:
  assumes run: "split_large partition_method cfg s = Some (Inr (s', did))"
    and c: "c \<in> set (communities s)" and large: "c_too_large c \<noteq> 0"
    and unflagged: "\<not> c_monolithic c"
  shows "c_index c \<in> set (split_attempts s')"
proof -
  let ?I = "\<lambda>t p. c_index c \<in> set (split_attempts t)
               \<or> (\<exists>q \<ge> p. q < length (communities t) \<and> communities t ! q = c)"
  from run have "split_large_loop partition_method cfg s 0 False = Some (Inr (s', did))"
    by (simp add: split_large_def)
  then have "\<exists>p. length (communities s') \<le> p \<and> ?I s' p"
  proof (rule split_large_loop_rule [where I = ?I])
    from c show "?I s 0" by (auto simp: in_set_conv_nth)
  next
    fix t p
    assume I: "?I t p" and "p < length (communities t)"
      and skip: "c_too_large (communities t ! p) = 0 \<or> c_monolithic (communities t ! p)"
    show "?I t (p + 1)"
    proof (cases "c_index c \<in> set (split_attempts t)")
      case True
      then show ?thesis by simp
    next
      case False
      with I obtain q where q: "q \<ge> p" "q < length (communities t)" "communities t ! q = c"
        by blast
      with skip large unflagged have "q \<noteq> p" by auto
      with q have "q \<ge> p + 1" by simp
      with q show ?thesis by blast
    qed
  next
    fix t p t1 did
    assume I: "?I t p" and p: "p < length (communities t)"
      and att: "split_attempt partition_method cfg t p = Inr (t1, did)"
    note log = split_attempt_log [OF att]
    show "?I t1 (if did then p else p + 1)"
    proof (cases "c_index c \<in> set (split_attempts t)")
      case True
      with log show ?thesis by simp
    next
      case False
      with I obtain q where q: "q \<ge> p" "q < length (communities t)" "communities t ! q = c"
        by blast
      show ?thesis
      proof (cases "q = p")
        case True
        with q log show ?thesis by simp
      next
        case False
        with q have qp: "p < q" by simp
        from att show ?thesis
        proof (cases rule: split_attempt_cases)
          case flagged
          from flagged(2) qp q have "q \<ge> p + 1 \<and> q < length (communities t1)
              \<and> communities t1 ! q = c" by simp
          with flagged(1) show ?thesis by auto
        next
          case (divided s1 vector m)
          from add_Some_communities(1) [OF divided(6)] remove_Inr(5) [OF divided(2)]
          obtain new where cs: "communities t1
              = (take p (communities t) @ drop (Suc p) (communities t)) @ new"
            by auto
          from qp q p have "q - 1 \<ge> p \<and> q - 1 < length (communities t1)
              \<and> communities t1 ! (q - 1) = c"
            unfolding cs by (auto simp: nth_append min_def)
          with divided(1) show ?thesis by auto
        qed
      qed
    qed
  qed
  then show ?thesis by auto
qed

lemma remove_positions_subset:
  "remove_positions ps s = Inr s' \<Longrightarrow> set (communities s') \<subseteq> set (communities s)"
proof (induction ps arbitrary: s)
  case Nil
  then show ?case by simp
next
  case (Cons p ps)
  from Cons.prems obtain s1 where r: "remove p s = Inr s1"
    and rest: "remove_positions ps s1 = Inr s'"
    by (auto split: sum.splits)
  from remove_Inr(5) [OF r] have "set (communities s1) \<subseteq> set (communities s)"
    using set_take_subset [of p "communities s"] set_drop_subset [of "Suc p" "communities s"]
    by auto
  with Cons.IH [OF rest] show ?case by blast
qed

lemma community_ok_bounds:
  assumes "community_ok cfg vector c"
  shows "c_too_small c = 0 \<Longrightarrow> min_comm_size cfg = Some m \<Longrightarrow> m \<le> c_size c"
    and "c_too_few c = 0 \<Longrightarrow> min_comm_nodes cfg = Some n \<Longrightarrow> n \<le> c_nodes c"
    and "c_too_large c = 0 \<Longrightarrow> max_comm_size cfg = Some l \<Longrightarrow> c_size c \<le> l"
proof -
  let ?d = "community_of cfg vector (c_index c)"
  from assms have eq: "c \<lparr> c_monolithic := False \<rparr> = ?d" by (simp add: community_ok_def)
  have "c_too_small c = c_too_small (c \<lparr> c_monolithic := False \<rparr>)"
    "c_too_few c = c_too_few (c \<lparr> c_monolithic := False \<rparr>)"
    "c_too_large c = c_too_large (c \<lparr> c_monolithic := False \<rparr>)"
    "c_size c = c_size (c \<lparr> c_monolithic := False \<rparr>)"
    "c_nodes c = c_nodes (c \<lparr> c_monolithic := False \<rparr>)"
    by simp_all
  then have f: "c_too_small c = c_too_small ?d" "c_too_few c = c_too_few ?d"
    "c_too_large c = c_too_large ?d" "c_size c = c_size ?d" "c_nodes c = c_nodes ?d"
    unfolding eq by simp_all
  show "c_too_small c = 0 \<Longrightarrow> min_comm_size cfg = Some m \<Longrightarrow> m \<le> c_size c"
    unfolding f by (simp add: community_of_def Let_def split: if_splits)
  show "c_too_few c = 0 \<Longrightarrow> min_comm_nodes cfg = Some n \<Longrightarrow> n \<le> c_nodes c"
    unfolding f by (simp add: community_of_def Let_def split: if_splits)
  show "c_too_large c = 0 \<Longrightarrow> max_comm_size cfg = Some l \<Longrightarrow> c_size c \<le> l"
    unfolding f by (simp add: community_of_def Let_def split: if_splits)
qed

lemma pack_kept:
  assumes c: "consistent cfg {} 0 s" and run: "pack bin_pack cfg s = Inr s'"
  shows "next_community_index s \<le> next_community_index s'"
    and "d \<in> set (communities s') \<Longrightarrow> c_index d < next_community_index s
         \<Longrightarrow> d \<in> set (communities s) \<and> compliant d"
proof -
  from run obtain s1 sizes idxs where pl: "pack_loop s 0 [] [] = Inr (s1, sizes, idxs)"
    by (auto simp: pack_def split: sum.splits)
  from pack_loop_props [OF pl, of cfg 0] c
  have kept: "\<forall>c \<in> set (communities s1). compliant c"
    "set (communities s1) \<subseteq> set (communities s)"
    and nxt: "next_community_index s1 = next_community_index s"
    by simp_all
  have "next_community_index s \<le> next_community_index s'
    \<and> (d \<in> set (communities s') \<longrightarrow> c_index d < next_community_index s
         \<longrightarrow> d \<in> set (communities s) \<and> compliant d)"
  proof (cases "length idxs = 0")
    case True
    with run pl have "s' = s1" by (simp add: pack_def)
    with kept nxt show ?thesis by auto
  next
    case False
    with run pl obtain vector n where
      a: "add cfg (Some n) (s1 \<lparr> membership := vector \<rparr>) = Inr s'"
      by (auto simp: pack_def Let_def split: sum.splits)
    from add_Some_communities(1) [OF a] obtain new where
      "communities s' = communities s1 @ new"
      "\<forall>c \<in> set new. next_community_index s1 \<le> c_index c"
      by auto
    with add_Some_communities(3) [OF a] kept nxt show ?thesis by auto
  qed
  then show "next_community_index s \<le> next_community_index s'"
    and "d \<in> set (communities s') \<Longrightarrow> c_index d < next_community_index s
         \<Longrightarrow> d \<in> set (communities s) \<and> compliant d"
    by simp_all
qed

lemma fill_kept:
  assumes c: "consistent cfg {} 0 s" and run: "fill bin_fill cfg s = Inr s'"
  shows "next_community_index s \<le> next_community_index s'"
    and "d \<in> set (communities s') \<Longrightarrow> c_index d < next_community_index s
         \<Longrightarrow> d \<in> set (communities s) \<and> c_too_few d = 0"
proof -
  from run obtain min_nodes where mn: "min_comm_nodes cfg = Some min_nodes"
    by (auto simp: fill_def split: option.splits)
  from run mn obtain s1 tot few_nodes few_idxs where
    fl: "fill_loop s 0 0 [] [] = Inr (s1, tot, few_nodes, few_idxs)"
    by (auto simp: fill_def split: sum.splits)
  from fill_loop_props [OF fl, of cfg 0] c
  have kept: "\<forall>c \<in> set (communities s1). c_too_few c = 0"
    "set (communities s1) \<subseteq> set (communities s)"
    and nxt: "next_community_index s1 = next_community_index s"
    by simp_all
  have "next_community_index s \<le> next_community_index s'
    \<and> (d \<in> set (communities s') \<longrightarrow> c_index d < next_community_index s
         \<longrightarrow> d \<in> set (communities s) \<and> c_too_few d = 0)"
  proof (cases "length few_idxs = 0")
    case True
    with run mn fl have "s' = s1" by (simp add: fill_def)
    with kept nxt show ?thesis by auto
  next
    case False
    let ?br = "if must_complete_cover cfg \<and> tot < min_nodes
               then borrow min_nodes s1 tot few_nodes few_idxs
               else Inr (s1, few_nodes, few_idxs)"
    from run mn fl False obtain s2 nodes idxs vector n where
      br: "?br = Inr (s2, nodes, idxs)"
      and a: "add cfg (Some n) (s2 \<lparr> membership := vector \<rparr>) = Inr s'"
      by (simp add: fill_def Let_def split: sum.splits prod.splits)
    have s2: "set (communities s2) \<subseteq> set (communities s1)
        \<and> next_community_index s2 = next_community_index s1"
    proof (cases "must_complete_cover cfg \<and> tot < min_nodes")
      case True
      with br obtain ps where r: "remove_positions ps s1 = Inr s2"
        by (auto simp: borrow_def split: prod.splits sum.splits)
      from remove_positions_subset [OF r] remove_positions_next [OF r] show ?thesis by simp
    next
      case False
      with br show ?thesis by simp
    qed
    from add_Some_communities(1) [OF a] obtain new where
      "communities s' = communities s2 @ new"
      "\<forall>c \<in> set new. next_community_index s2 \<le> c_index c"
      by auto
    with add_Some_communities(3) [OF a] kept nxt s2 show ?thesis by auto
  qed
  then show "next_community_index s \<le> next_community_index s'"
    and "d \<in> set (communities s') \<Longrightarrow> c_index d < next_community_index s
         \<Longrightarrow> d \<in> set (communities s) \<and> c_too_few d = 0"
    by simp_all
qed

lemma c_nodes_of:
  "c_nodes (community_of cfg vector i) = count_true (map (\<lambda>m. m = i) vector)"
  by (simp add: community_of_def Let_def)

lemma community_ok_nodes:
  assumes "community_ok cfg vector c"
  shows "c_nodes c = count_true (map (\<lambda>m. m = c_index c) vector)"
proof -
  have "c_nodes c = c_nodes (c \<lparr> c_monolithic := False \<rparr>)" by simp
  also have "\<dots> = c_nodes (community_of cfg vector (c_index c))"
    using assms unfolding community_ok_def by simp
  finally show ?thesis by (simp add: c_nodes_of)
qed

lemma count_true_nonneg: "0 \<le> count_true nodes_mask"
  by (simp add: count_true_def)

lemma count_true_member:
  "i \<in> set vector \<Longrightarrow> 1 \<le> count_true (map (\<lambda>m. m = i) vector)"
  by (induction vector) (auto simp: count_true_def)

lemma consistent_nodes:
  assumes c: "consistent cfg {} 0 s"
  shows "sum_list (map c_nodes (communities s)) = int (length (membership s))"
proof -
  let ?m = "membership s" and ?is = "map c_index (communities s)"
  have d: "distinct ?is" using c by (simp add: consistent_def)
  have cover: "\<forall>v \<in> set ?m. v \<in> set ?is" using c by (auto simp: consistent_def)
  have "map c_nodes (communities s)
      = map (\<lambda>c. count_true (map (\<lambda>m. m = c_index c) ?m)) (communities s)"
    using c by (intro map_cong) (auto simp: consistent_def community_ok_nodes)
  then have "sum_list (map c_nodes (communities s))
      = sum_list (map (\<lambda>c. count_true (map (\<lambda>m. m = c_index c) ?m)) (communities s))"
    by (rule arg_cong)
  also have "\<dots> = (\<Sum>i\<leftarrow>?is. sum_list (map (\<lambda>m. 1) (filter (\<lambda>m. m = i) ?m)))"
    by (simp add: comp_def count_true_filter)
  also have "\<dots> = sum_list (map (\<lambda>m. 1) ?m)"
    using sum_by_label [OF d, of ?m "\<lambda>m. m" "\<lambda>m. 1"] cover by simp
  also have "\<dots> = int (length ?m)" by (rule sum_list_ones)
  finally show ?thesis .
qed

lemma add_loop_communities_eq:
  "communities (add_loop n cfg s)
     = communities s @ map (\<lambda>j. community_of cfg (membership s) (next_community_index s + int j))
                           [0 ..< n]"
proof (induction n arbitrary: s)
  case 0
  then show ?case by simp
next
  case (Suc n)
  have "map (\<lambda>j. community_of cfg (membership s) (next_community_index s + int j)) [0 ..< Suc n]
      = community_of cfg (membership s) (next_community_index s)
        # map (\<lambda>j. community_of cfg (membership s) (next_community_index s + 1 + int j)) [0 ..< n]"
    by (simp add: map_upt_Suc add.assoc del: upt_Suc)
  with Suc [of "add_community cfg s"] show ?case by simp
qed

lemma scatter_surj:
  assumes "length vals = length (filter id nodes_mask)" "length nodes_mask = length vector"
  shows "set vals \<subseteq> set (scatter vector nodes_mask vals)"
  using assms
proof (induction vector nodes_mask vals rule: scatter.induct)
  case (1 old vector b nodes_mask vals)
  show ?case
  proof (cases b)
    case True
    with "1.prems" obtain v vals' where vs: "vals = v # vals'" by (cases vals) auto
    with "1.IH"(2) [OF True vs] "1.prems" True show ?thesis by auto
  next
    case False
    with "1.IH"(3) [OF False] "1.prems" show ?thesis by auto
  qed
qed simp_all

lemma potential_of_nonempty:
  fixes f :: "'a \<Rightarrow> int"
  assumes "\<forall>x \<in> set xs. 1 \<le> f x"
  shows "sum_list (map (\<lambda>x. if f x \<le> 1 then 0 else f x - 1) xs)
           = sum_list (map f xs) - int (length xs)"
    and "int (length xs) \<le> sum_list (map f xs)"
  using assms by (induction xs) auto

lemma split_attempt_divided:
  assumes c: "consistent cfg {} 0 s" and pm: "partition_ok partition_method"
    and dense: "partition_dense partition_method"
    and p: "p < length (communities s)"
    and att: "split_attempt partition_method cfg s p = Inr (s', True)"
  shows "\<exists>k \<ge> 2. length (communities s') + 1 = length (communities s) + k
           \<and> split_potential s' + int k - 1 \<le> split_potential s"
  using att
proof (cases rule: split_attempt_cases)
  case flagged
  then show ?thesis by simp
next
  case (divided s1 vector m)
  let ?c = "communities s ! p"
  let ?v = "partition_method (Subgraph (c_mask ?c)
              (map_option (\<lambda>sizes. masked sizes (c_mask ?c)) (node_sizes cfg)))"
  let ?phi = "\<lambda>c. if c_nodes c \<le> 1 then 0 else c_nodes c - 1"
  let ?rest = "take p (communities s) @ drop (Suc p) (communities s)"
  let ?k = "nat (m + 1)"
  let ?new = "map (\<lambda>j. community_of cfg vector (next_community_index s1 + int j)) [0 ..< ?k]"
  note R = remove_Inr [OF divided(2)]
  from R(5) have rest: "communities s1 = ?rest" by simp
  from divided(6) have "s' = add_loop ?k cfg (s1 \<lparr> membership := vector \<rparr>)"
    by (auto simp: add_def split: if_splits)
  with add_loop_communities_eq [of ?k cfg "s1 \<lparr> membership := vector \<rparr>"] rest
  have cs': "communities s' = ?rest @ ?new" by simp
  from pm have lenv: "int (length ?v) = count_true (c_mask ?c)"
    and posv: "\<forall>v \<in> set ?v. 0 \<le> v"
    unfolding partition_ok_def by blast+
  note M = np_max_Inr [OF divided(3)]
  from M(2) posv have "0 \<le> m" by auto
  with divided(4) have m1: "1 \<le> m" by simp
  then have k2: "2 \<le> ?k" by simp
  from c p have ok: "community_ok cfg (membership s) ?c" by (simp add: consistent_def)
  note mask = community_ok_mask [OF ok]
  let ?vals = "map (\<lambda>v. v + next_community_index s1) ?v"
  from divided(5) lenv R(2) have vec: "vector = scatter (membership s) (c_mask ?c) ?vals"
    by (simp add: assign_values_def)
  have "length ?vals = length (filter id (c_mask ?c))"
    using lenv by (simp add: count_true_def)
  moreover have "length (c_mask ?c) = length (membership s)" using mask by simp
  ultimately have surj: "set ?vals \<subseteq> set vector"
    unfolding vec by (rule scatter_surj)
  have nonempty: "\<forall>d \<in> set ?new. 1 \<le> c_nodes d"
  proof
    fix d assume "d \<in> set ?new"
    then obtain j where j: "j < ?k" and d: "d = community_of cfg vector (next_community_index s1 + int j)"
      by auto
    from j have "0 \<le> int j \<and> int j \<le> m" by simp
    with dense M(2) have "int j \<in> set ?v" unfolding partition_dense_def by blast
    then have "int j + next_community_index s1 \<in> set ?vals" by simp
    with surj have "next_community_index s1 + int j \<in> set vector"
      by (auto simp: add.commute)
    from count_true_member [OF this] d show "1 \<le> c_nodes d" by (simp add: c_nodes_of)
  qed
  from split_attempt_consistent [OF c pm p att]
  have c': "consistent cfg {} 0 s'" and len: "length (membership s') = length (membership s)"
    by simp_all
  from consistent_nodes [OF c] consistent_nodes [OF c'] len
  have "sum_list (map c_nodes (communities s')) = sum_list (map c_nodes (communities s))"
    by simp
  with cs' drop_nth_sum [OF p, of c_nodes]
  have total: "sum_list (map c_nodes ?new) = c_nodes ?c" by simp
  from potential_of_nonempty [OF nonempty]
  have new_phi: "sum_list (map ?phi ?new) = sum_list (map c_nodes ?new) - int (length ?new)"
    and "int (length ?new) \<le> sum_list (map c_nodes ?new)"
    by simp_all
  with total k2 have n2: "2 \<le> c_nodes ?c" by simp
  have "split_potential s' = sum_list (map ?phi ?rest) + sum_list (map ?phi ?new)"
    unfolding split_potential_def cs' by simp
  also have "\<dots> = sum_list (map ?phi ?rest) + (c_nodes ?c - int ?k)"
    using new_phi total by simp
  finally have pot': "split_potential s' = sum_list (map ?phi ?rest) + (c_nodes ?c - int ?k)" .
  have "split_potential s = sum_list (map ?phi ?rest) + ?phi ?c"
    unfolding split_potential_def using drop_nth_sum [OF p, of ?phi] by simp
  with n2 have pot: "split_potential s = sum_list (map ?phi ?rest) + (c_nodes ?c - 1)" by simp
  from cs' p have "length (communities s') + 1 = length (communities s) + ?k" by simp
  with k2 pot pot' show ?thesis by (intro exI [of _ ?k]) simp
qed

lemma split_attempt_flagged_measure:
  assumes "split_attempt partition_method cfg s p = Inr (s', False)"
  shows "length (communities s') = length (communities s)
         \<and> split_potential s' = split_potential s"
  using assms
proof (cases rule: split_attempt_cases)
  case flagged
  have "map (\<lambda>c. if c_nodes c \<le> 1 then 0 else c_nodes c - 1)
               ((communities s)[p := (communities s ! p) \<lparr> c_monolithic := True \<rparr>])
      = map (\<lambda>c. if c_nodes c \<le> 1 then 0 else c_nodes c - 1) (communities s)"
    by (cases "p < length (communities s)") (simp_all add: map_update_same list_update_beyond)
  with flagged(2) show ?thesis by (simp add: split_potential_def)
next
  case (divided s1 vector m)
  then show ?thesis by simp
qed

lemma split_potential_nonneg: "0 \<le> split_potential s"
  unfolding split_potential_def by (rule sum_list_nonneg) auto

lemma split_large_loop_terminates:
  assumes pm: "partition_ok partition_method" and dense: "partition_dense partition_method"
  shows "consistent cfg {} 0 s
         \<Longrightarrow> \<exists>r. split_large_loop partition_method cfg s p did_split = Some r"
proof (induction "nat (2 * split_potential s) + (length (communities s) - p)"
         arbitrary: s p did_split rule: less_induct)
  case less
  note c = less.prems
  show ?case
  proof (cases "p < length (communities s)")
    case False
    then show ?thesis by (subst split_large_loop.simps) simp
  next
    case inb: True
    show ?thesis
    proof (cases "c_too_large (communities s ! p) = 0 \<or> c_monolithic (communities s ! p)")
      case True
      have "nat (2 * split_potential s) + (length (communities s) - (p + 1))
          < nat (2 * split_potential s) + (length (communities s) - p)"
        using inb by simp
      from less.hyps [OF this c, of did_split] obtain r where
        "split_large_loop partition_method cfg s (p + 1) did_split = Some r" by blast
      with inb True show ?thesis by (subst split_large_loop.simps) simp
    next
      case large: False
      show ?thesis
      proof (cases "split_attempt partition_method cfg s p")
        case (Inl e)
        with inb large show ?thesis by (subst split_large_loop.simps) simp
      next
        case (Inr result)
        obtain s' did where result: "result = (s', did)" by (cases result)
        with Inr have att: "split_attempt partition_method cfg s p = Inr (s', did)" by simp
        from split_attempt_consistent [OF c pm inb att] have c': "consistent cfg {} 0 s'"
          by simp
        show ?thesis
        proof (cases did)
          case True
          from att True have "split_attempt partition_method cfg s p = Inr (s', True)" by simp
          from split_attempt_divided [OF c pm dense inb this]
          obtain k where k: "2 \<le> k"
            "length (communities s') + 1 = length (communities s) + k"
            "split_potential s' + int k - 1 \<le> split_potential s"
            by blast
          have "nat (2 * split_potential s') + (length (communities s') - p)
              < nat (2 * split_potential s) + (length (communities s) - p)"
            using k inb split_potential_nonneg [of s'] split_potential_nonneg [of s] by linarith
          from less.hyps [OF this c', of True] obtain r where
            "split_large_loop partition_method cfg s' p True = Some r" by blast
          with inb large att True show ?thesis by (subst split_large_loop.simps) simp
        next
          case False
          from att False have "split_attempt partition_method cfg s p = Inr (s', False)" by simp
          from split_attempt_flagged_measure [OF this]
          have "nat (2 * split_potential s') + (length (communities s') - (p + 1))
              < nat (2 * split_potential s) + (length (communities s) - p)"
            using inb by simp
          from less.hyps [OF this c', of did_split] obtain r where
            "split_large_loop partition_method cfg s' (p + 1) did_split = Some r" by blast
          with inb large att False show ?thesis by (subst split_large_loop.simps) simp
        qed
      qed
    qed
  qed
qed

lemma split_large_loop_idle:
  assumes "\<forall>c \<in> set (communities s). c_too_large c \<noteq> 0 \<longrightarrow> c_monolithic c"
  shows "split_large_loop partition_method cfg s p did_split = Some (Inr (s, did_split))"
proof (induction "length (communities s) - p" arbitrary: p)
  case 0
  then show ?case by (subst split_large_loop.simps) simp
next
  case (Suc n)
  then have inb: "p < length (communities s)" and "n = length (communities s) - (p + 1)"
    by simp_all
  from Suc.hyps(1) [OF this(2)]
  have "split_large_loop partition_method cfg s (p + 1) did_split = Some (Inr (s, did_split))" .
  moreover from assms inb
  have "c_too_large (communities s ! p) = 0 \<or> c_monolithic (communities s ! p)"
    by (meson nth_mem)
  ultimately show ?case using inb by (subst split_large_loop.simps) simp
qed

lemma split_while_terminates:
  assumes pm: "partition_ok partition_method" and dense: "partition_dense partition_method"
    and c: "consistent cfg {} 0 s"
  shows "\<exists>r. split_while partition_method cfg s did_split = Some r"
proof (cases "0 < too_large s")
  case False
  then show ?thesis by (subst split_while.simps) simp
next
  case large: True
  from split_large_loop_terminates [OF pm dense c, of 0 False] obtain r where
    r: "split_large partition_method cfg s = Some r" by (auto simp: split_large_def)
  show ?thesis
  proof (cases r)
    case (Inl e)
    with r large show ?thesis by (subst split_while.simps) simp
  next
    case (Inr result)
    obtain s' did where "result = (s', did)" by (cases result)
    with Inr r have run: "split_large partition_method cfg s = Some (Inr (s', did))" by simp
    show ?thesis
    proof (cases did)
      case False
      with run large show ?thesis by (subst split_while.simps) simp
    next
      case True
      from split_large_loop_idle [OF split_large_flags_all [OF run], of partition_method cfg 0 False]
      have idle: "split_large partition_method cfg s' = Some (Inr (s', False))"
        by (simp add: split_large_def)
      have "\<exists>r. split_while partition_method cfg s' True = Some r"
        using idle by (subst split_while.simps) simp
      with run large True show ?thesis by (subst split_while.simps) simp
    qed
  qed
qed

lemma community_ok_nonneg:
  assumes "community_ok cfg vector c"
  shows "0 \<le> c_too_few c" and "0 \<le> c_too_small c" and "0 \<le> c_too_large c"
proof -
  let ?d = "community_of cfg vector (c_index c)"
  from assms have eq: "c \<lparr> c_monolithic := False \<rparr> = ?d" by (simp add: community_ok_def)
  have "c_too_small c = c_too_small (c \<lparr> c_monolithic := False \<rparr>)"
    "c_too_few c = c_too_few (c \<lparr> c_monolithic := False \<rparr>)"
    "c_too_large c = c_too_large (c \<lparr> c_monolithic := False \<rparr>)"
    by simp_all
  then have f: "c_too_small c = c_too_small ?d" "c_too_few c = c_too_few ?d"
    "c_too_large c = c_too_large ?d"
    unfolding eq by simp_all
  show "0 \<le> c_too_few c" unfolding f
    by (simp add: community_of_def Let_def split: option.splits)
  show "0 \<le> c_too_small c" unfolding f
    by (simp add: community_of_def Let_def split: option.splits)
  show "0 \<le> c_too_large c" unfolding f
    by (simp add: community_of_def Let_def split: option.splits)
qed

lemma consistent_nonneg:
  assumes "consistent cfg orphans pending s"
  shows "0 \<le> too_few s" and "0 \<le> too_small s" and "0 \<le> too_large s"
proof -
  from assms have ok: "\<forall>c \<in> set (communities s). community_ok cfg (membership s) c"
    and t: "too_few s = sum_list (map c_too_few (communities s))"
      "too_small s = sum_list (map c_too_small (communities s))"
      "too_large s = sum_list (map c_too_large (communities s))"
    by (simp_all add: consistent_def)
  show "0 \<le> too_few s" unfolding t
    by (rule sum_list_nonneg) (use ok community_ok_nonneg(1) in auto)
  show "0 \<le> too_small s" unfolding t
    by (rule sum_list_nonneg) (use ok community_ok_nonneg(2) in auto)
  show "0 \<le> too_large s" unfolding t
    by (rule sum_list_nonneg) (use ok community_ok_nonneg(3) in auto)
qed

lemma merge_few_or_small_result:
  assumes "merge_few_or_small partition_method cfg s = Inr (s', did)"
  shows "did \<longleftrightarrow> \<not> length (filter few_or_small (communities s)) < 2
              \<and> tuple_less (too_few s', too_small s') (too_few s, too_small s)"
    and "length (filter few_or_small (communities s)) < 2 \<Longrightarrow> s' = s"
proof -
  let ?ps = "filter (\<lambda>position. few_or_small (communities s ! position))
               [0 ..< length (communities s)]"
  have "map (\<lambda>position. communities s ! position) ?ps = filter few_or_small (communities s)"
    by (rule nth_filter_positions)
  then have len: "length (map (\<lambda>position. communities s ! position) ?ps)
      = length (filter few_or_small (communities s))"
    by simp
  show "did \<longleftrightarrow> \<not> length (filter few_or_small (communities s)) < 2
              \<and> tuple_less (too_few s', too_small s') (too_few s, too_small s)"
    using assms unfolding merge_few_or_small_def Let_def len
    by (auto split: if_splits sum.splits)
  show "length (filter few_or_small (communities s)) < 2 \<Longrightarrow> s' = s"
    using assms unfolding merge_few_or_small_def Let_def len
    by (auto split: if_splits sum.splits)
qed

lemma merge_while_consistent:
  assumes c: "consistent cfg {} 0 s" and pm: "partition_ok partition_method"
    and run: "merge_while partition_method cfg s = Some (Inr s')"
  shows "consistent cfg {} 0 s'"
proof (rule merge_while_rule [OF run, of "consistent cfg {} 0"])
  show "consistent cfg {} 0 s" by (rule c)
next
  fix t t1 did
  assume "consistent cfg {} 0 t" and "merge_few_or_small partition_method cfg t = Inr (t1, did)"
  with merge_few_or_small_consistent [OF _ pm, of cfg t t1 did]
  show "consistent cfg {} 0 t1" by simp
qed

lemma split_while_consistent:
  assumes c: "consistent cfg {} 0 s" and pm: "partition_ok partition_method"
    and run: "split_while partition_method cfg s did_split = Some (Inr (s', did))"
  shows "consistent cfg {} 0 s'"
proof (rule split_while_rule [OF run, of "consistent cfg {} 0"])
  show "consistent cfg {} 0 s" by (rule c)
next
  fix t t1 did
  assume "consistent cfg {} 0 t" and "split_large partition_method cfg t = Some (Inr (t1, did))"
  with split_large_consistent [OF _ pm, of cfg t t1 did]
  show "consistent cfg {} 0 t1" by simp
qed

lemma tuple_less_measures:
  assumes "tuple_less q penalty" and "0 \<le> fst q" and "0 \<le> snd q"
  shows "(q, penalty) \<in> measures [\<lambda>p. nat (fst p), \<lambda>p. nat (snd p)]"
  using assms by (auto simp: tuple_less_def)

lemma merge_while_terminates:
  assumes pm: "partition_ok partition_method"
  shows "consistent cfg {} 0 s \<Longrightarrow> \<exists>r. merge_while partition_method cfg s = Some r"
proof (induction "(too_few s, too_small s)" arbitrary: s
         rule: wf_induct_rule [OF wf_measures [of "[\<lambda>p. nat (fst p), \<lambda>p. nat (snd p)]"]])
  case 1
  note c = "1.prems" and hyps = "1.hyps"
  show ?case
  proof (cases "0 < too_few s \<or> 0 < too_small s")
    case False
    then show ?thesis by (subst merge_while.simps) simp
  next
    case True
    show ?thesis
    proof (cases "merge_few_or_small partition_method cfg s")
      case (Inl e)
      with True show ?thesis by (subst merge_while.simps) simp
    next
      case (Inr result)
      obtain s' did where "result = (s', did)" by (cases result)
      with Inr have mg: "merge_few_or_small partition_method cfg s = Inr (s', did)" by simp
      from merge_few_or_small_consistent [OF c pm mg] have c': "consistent cfg {} 0 s'" by simp
      show ?thesis
      proof (cases did)
        case False
        with mg True show ?thesis by (subst merge_while.simps) simp
      next
        case did: True
        with merge_few_or_small_result(1) [OF mg]
        have "tuple_less (too_few s', too_small s') (too_few s, too_small s)" by simp
        from tuple_less_measures [OF this] consistent_nonneg [OF c']
        have "((too_few s', too_small s'), (too_few s, too_small s))
                \<in> measures [\<lambda>p. nat (fst p), \<lambda>p. nat (snd p)]"
          by simp
        from hyps [OF this c'] obtain r where
          "merge_while partition_method cfg s' = Some r" by blast
        with mg True did show ?thesis by (subst merge_while.simps) simp
      qed
    qed
  qed
qed

lemma improve_loop_terminates:
  assumes pm: "partition_ok partition_method" and dense: "partition_dense partition_method"
  shows "consistent cfg {} 0 s \<Longrightarrow> \<exists>r. improve_loop partition_method cfg s penalty = Some r"
proof (induction penalty arbitrary: s
         rule: wf_induct_rule [OF wf_measures [of "[\<lambda>p. nat (fst p), \<lambda>p. nat (snd p)]"]])
  case (1 penalty)
  note c = "1.prems" and hyps = "1.IH"
  let ?q = "(too_few s, too_small s + too_large s)"
  show ?case
  proof (cases "tuple_less ?q penalty")
    case False
    then show ?thesis by (subst improve_loop.simps) simp
  next
    case True
    from tuple_less_measures [OF True] consistent_nonneg [OF c]
    have "(?q, penalty) \<in> measures [\<lambda>p. nat (fst p), \<lambda>p. nat (snd p)]" by simp
    note IH = hyps [OF this]
    show ?thesis
    proof (cases "max_comm_size cfg \<noteq> None")
      case False
      from IH [OF c] obtain r where "improve_loop partition_method cfg s ?q = Some r" by blast
      with True False show ?thesis by (subst improve_loop.simps) simp
    next
      case mx: True
      from split_while_terminates [OF pm dense c, of False] obtain r1 where
        r1: "split_while partition_method cfg s False = Some r1" by blast
      show ?thesis
      proof (cases r1)
        case (Inl e)
        with r1 True mx show ?thesis by (subst improve_loop.simps) simp
      next
        case (Inr result)
        obtain s1 did_split where "result = (s1, did_split)" by (cases result)
        with Inr r1 have sw: "split_while partition_method cfg s False = Some (Inr (s1, did_split))"
          by simp
        from split_while_consistent [OF c pm sw] have c1: "consistent cfg {} 0 s1" .
        show ?thesis
        proof (cases "did_split \<and> min_comm_size cfg \<noteq> None")
          case False
          from IH [OF c1] obtain r where "improve_loop partition_method cfg s1 ?q = Some r"
            by blast
          with True mx sw False show ?thesis by (subst improve_loop.simps) auto
        next
          case again: True
          from merge_while_terminates [OF pm c1] obtain r2 where
            r2: "merge_while partition_method cfg s1 = Some r2" by blast
          show ?thesis
          proof (cases r2)
            case (Inl e)
            with r2 True mx sw again show ?thesis by (subst improve_loop.simps) simp
          next
            case (Inr s2)
            with r2 have mw: "merge_while partition_method cfg s1 = Some (Inr s2)" by simp
            from merge_while_consistent [OF c1 pm mw] have c2: "consistent cfg {} 0 s2" .
            from IH [OF c2] obtain r where "improve_loop partition_method cfg s2 ?q = Some r"
              by blast
            with True mx sw again mw show ?thesis by (subst improve_loop.simps) simp
          qed
        qed
      qed
    qed
  qed
qed

lemma improve_returns:
  assumes pm: "partition_ok partition_method" and dense: "partition_dense partition_method"
    and c: "consistent cfg {} 0 s"
  shows "\<exists>r. improve partition_method cfg s = Some r"
proof (cases "min_comm_size cfg \<noteq> None")
  case False
  with improve_loop_terminates [OF pm dense c, of "(too_few s, too_small s + too_large s + 1)"]
  show ?thesis by (auto simp: improve_def)
next
  case True
  from merge_while_terminates [OF pm c] obtain r1 where
    r1: "merge_while partition_method cfg s = Some r1" by blast
  show ?thesis
  proof (cases r1)
    case (Inl e)
    with r1 True show ?thesis by (simp add: improve_def)
  next
    case (Inr s1)
    with r1 have mw: "merge_while partition_method cfg s = Some (Inr s1)" by simp
    from merge_while_consistent [OF c pm mw] have c1: "consistent cfg {} 0 s1" .
    from improve_loop_terminates [OF pm dense c1,
        of "(too_few s1, too_small s1 + too_large s1 + 1)"] mw True
    show ?thesis by (auto simp: improve_def)
  qed
qed










lemma flags_ok_kept:
  assumes "flags_ok partition_method cfg s"
    and "\<forall>c \<in> set (communities s'). c_monolithic c \<longrightarrow> c \<in> set (communities s)"
  shows "flags_ok partition_method cfg s'"
  using assms unfolding flags_ok_def by blast

lemma flags_ok_membership [simp]:
  "flags_ok partition_method cfg (s \<lparr> membership := vector \<rparr>) = flags_ok partition_method cfg s"
  by (simp add: flags_ok_def)

lemma add_flags:
  assumes f: "flags_ok partition_method cfg s" and a: "add cfg count s = Inr s'"
  shows "flags_ok partition_method cfg s'"
proof -
  from a obtain n where "s' = add_loop n cfg s"
    by (auto simp: add_def split: option.splits if_splits sum.splits)
  with add_loop_communities_eq [of n cfg s]
  have "\<forall>c \<in> set (communities s'). c_monolithic c \<longrightarrow> c \<in> set (communities s)" by auto
  with f show ?thesis by (rule flags_ok_kept)
qed

lemma remove_positions_flags:
  assumes f: "flags_ok partition_method cfg s" and r: "remove_positions ps s = Inr s'"
  shows "flags_ok partition_method cfg s'"
proof (rule flags_ok_kept [OF f])
  from remove_positions_subset [OF r]
  show "\<forall>c \<in> set (communities s'). c_monolithic c \<longrightarrow> c \<in> set (communities s)" by blast
qed

lemma remove_flags:
  assumes f: "flags_ok partition_method cfg s" and r: "remove p s = Inr s'"
  shows "flags_ok partition_method cfg s'"
proof -
  from r have "remove_positions [p] s = Inr s'" by simp
  from remove_positions_flags [OF f this] show ?thesis .
qed

lemma merge_few_or_small_flags:
  assumes f: "flags_ok partition_method cfg s"
    and mg: "merge_few_or_small method cfg s = Inr (s', did)"
  shows "flags_ok partition_method cfg s'"
proof (cases "length (map (\<lambda>position. communities s ! position)
                 (filter (\<lambda>position. few_or_small (communities s ! position))
                         [0 ..< length (communities s)])) < 2")
  case True
  with mg have "s' = s" by (simp add: merge_few_or_small_def Let_def)
  with f show ?thesis by simp
next
  case False
  with mg obtain vector ps s2 n where
    r: "remove_positions ps (s \<lparr> membership := vector \<rparr>) = Inr s2"
    and ad: "add cfg (Some n) s2 = Inr s'"
    by (auto simp: merge_few_or_small_def Let_def split: sum.splits)
  from f have "flags_ok partition_method cfg (s \<lparr> membership := vector \<rparr>)" by simp
  from add_flags [OF remove_positions_flags [OF this r] ad] show ?thesis .
qed

lemma split_attempt_flags:
  assumes f: "flags_ok partition_method cfg s"
    and att: "split_attempt partition_method cfg s p = Inr (s', did)"
  shows "flags_ok partition_method cfg s'"
  using att
proof (cases rule: split_attempt_cases)
  case flagged
  let ?c = "communities s ! p"
  have answer: "split_answer partition_method cfg (?c \<lparr> c_monolithic := True \<rparr>)
      = partition_method (Subgraph (c_mask ?c)
          (map_option (\<lambda>sizes. masked sizes (c_mask ?c)) (node_sizes cfg)))"
    by (simp add: split_answer_def)
  show ?thesis
    unfolding flags_ok_def
  proof (intro ballI impI)
    fix c assume c: "c \<in> set (communities s')" and m: "c_monolithic c"
    from c flagged(2) have "c \<in> set ((communities s)[p := ?c \<lparr> c_monolithic := True \<rparr>])"
      by simp
    then have "c = ?c \<lparr> c_monolithic := True \<rparr> \<or> c \<in> set (communities s)"
      using set_update_subset_insert [of "communities s" p] by auto
    then show "np_max (split_answer partition_method cfg c) = Inr 0"
    proof
      assume "c = ?c \<lparr> c_monolithic := True \<rparr>"
      with answer flagged(3) show ?thesis by simp
    next
      assume "c \<in> set (communities s)"
      with f m show ?thesis by (simp add: flags_ok_def)
    qed
  qed
next
  case (divided s1 vector m)
  from f have "flags_ok partition_method cfg
      (s \<lparr> split_attempts := split_attempts s @ [c_index (communities s ! p)] \<rparr>)"
    by (simp add: flags_ok_def)
  from remove_flags [OF this divided(2)] have "flags_ok partition_method cfg s1" .
  then have "flags_ok partition_method cfg (s1 \<lparr> membership := vector \<rparr>)" by simp
  from add_flags [OF this divided(6)] show ?thesis .
qed

lemma split_large_flags:
  assumes f: "flags_ok partition_method cfg s"
    and run: "split_large partition_method cfg s = Some (Inr (s', did))"
  shows "flags_ok partition_method cfg s'"
proof (rule split_large_rule [OF run, of "flags_ok partition_method cfg"])
  show "flags_ok partition_method cfg s" by (rule f)
next
  fix t p t1 did
  assume "flags_ok partition_method cfg t"
    and "split_attempt partition_method cfg t p = Inr (t1, did)"
  then show "flags_ok partition_method cfg t1" by (rule split_attempt_flags)
qed

lemma improve_flags:
  assumes f: "flags_ok partition_method cfg s"
    and run: "improve partition_method cfg s = Some (Inr s')"
  shows "flags_ok partition_method cfg s'"
proof (rule improve_rule [OF run, of "flags_ok partition_method cfg"])
  show "flags_ok partition_method cfg s" by (rule f)
next
  fix t t1 did
  assume "flags_ok partition_method cfg t"
    and "merge_few_or_small partition_method cfg t = Inr (t1, did)"
  then show "flags_ok partition_method cfg t1" by (rule merge_few_or_small_flags)
next
  fix t t1 did
  assume "flags_ok partition_method cfg t"
    and "split_large partition_method cfg t = Some (Inr (t1, did))"
  then show "flags_ok partition_method cfg t1" by (rule split_large_flags)
qed

lemma pack_flags:
  assumes f: "flags_ok partition_method cfg s" and run: "pack bin_pack cfg s = Inr s'"
  shows "flags_ok partition_method cfg s'"
proof -
  from run obtain s1 sizes idxs where pl: "pack_loop s 0 [] [] = Inr (s1, sizes, idxs)"
    by (auto simp: pack_def split: sum.splits)
  have f1: "flags_ok partition_method cfg s1"
    by (rule pack_loop_rule [OF pl, of "flags_ok partition_method cfg"])
       (rule f, erule (1) remove_flags)
  show ?thesis
  proof (cases "length idxs = 0")
    case True
    with run pl f1 show ?thesis by (simp add: pack_def)
  next
    case False
    with run pl obtain vector n where "add cfg (Some n) (s1 \<lparr> membership := vector \<rparr>) = Inr s'"
      by (auto simp: pack_def Let_def split: sum.splits)
    from add_flags [OF _ this] f1 show ?thesis by simp
  qed
qed

lemma fill_flags:
  assumes f: "flags_ok partition_method cfg s" and run: "fill bin_fill cfg s = Inr s'"
  shows "flags_ok partition_method cfg s'"
proof -
  from run obtain min_nodes where mn: "min_comm_nodes cfg = Some min_nodes"
    by (auto simp: fill_def split: option.splits)
  from run mn obtain s1 tot few_nodes few_idxs where
    fl: "fill_loop s 0 0 [] [] = Inr (s1, tot, few_nodes, few_idxs)"
    by (auto simp: fill_def split: sum.splits)
  have f1: "flags_ok partition_method cfg s1"
    by (rule fill_loop_rule [OF fl, of "flags_ok partition_method cfg"])
       (rule f, erule (1) remove_flags)
  show ?thesis
  proof (cases "length few_idxs = 0")
    case True
    with run mn fl f1 show ?thesis by (simp add: fill_def)
  next
    case False
    let ?br = "if must_complete_cover cfg \<and> tot < min_nodes
               then borrow min_nodes s1 tot few_nodes few_idxs
               else Inr (s1, few_nodes, few_idxs)"
    from run mn fl False obtain s2 nodes idxs vector n where
      br: "?br = Inr (s2, nodes, idxs)"
      and ad: "add cfg (Some n) (s2 \<lparr> membership := vector \<rparr>) = Inr s'"
      by (simp add: fill_def Let_def split: sum.splits prod.splits)
    have "flags_ok partition_method cfg s2"
    proof (cases "must_complete_cover cfg \<and> tot < min_nodes")
      case True
      with br obtain ps where "remove_positions ps s1 = Inr s2"
        by (auto simp: borrow_def split: prod.splits sum.splits)
      from remove_positions_flags [OF f1 this] show ?thesis .
    next
      case False
      with br f1 show ?thesis by simp
    qed
    from add_flags [OF _ ad] this show ?thesis by simp
  qed
qed

lemma Improver_init_flags:
  assumes "Improver_init cfg vector = Inr s"
  shows "flags_ok partition_method cfg s"
proof -
  let ?s0 = "\<lparr> membership = vector, communities = [], too_few = 0, too_small = 0,
               too_large = 0, next_community_index = 0, split_attempts = [] \<rparr>"
  from assms have "add cfg None ?s0 = Inr s"
    by (auto simp: Improver_init_def split: sum.splits if_splits)
  moreover have "flags_ok partition_method cfg ?s0" by (simp add: flags_ok_def)
  ultimately show ?thesis by (rule add_flags [rotated])
qed

lemma reachable_flags:
  assumes "reachable partition_method bin_pack bin_fill cfg membership_vector s"
  shows "flags_ok partition_method cfg s"
  using assms
proof (induction rule: reachable.induct)
  case (constructed s)
  then show ?case by (rule Improver_init_flags)
next
  case (merged s s' did_improve)
  from merged.IH merged.hyps(2) show ?case by (rule merge_few_or_small_flags)
next
  case (split s s' did_split)
  from split.IH split.hyps(2) show ?case by (rule split_large_flags)
next
  case (improved s s')
  from improved.IH improved.hyps(2) show ?case by (rule improve_flags)
next
  case (packed s s')
  from packed.IH packed.hyps(2) show ?case by (rule pack_flags)
next
  case (filled s s')
  from filled.IH filled.hyps(2) show ?case by (rule fill_flags)
qed

lemma split_attempt_outcome:
  assumes att: "split_attempt partition_method cfg s p = Inr (s', did)"
  shows "(\<not> did \<longleftrightarrow> np_max (split_answer partition_method cfg (communities s ! p)) = Inr 0)"
    and "\<not> did \<Longrightarrow> communities s'
           = (communities s)[p := (communities s ! p) \<lparr> c_monolithic := True \<rparr>]"
    and "did \<Longrightarrow> \<exists>new. communities s'
           = take p (communities s) @ drop (Suc p) (communities s) @ new
             \<and> (\<forall>c \<in> set new. \<not> c_monolithic c)"
    and "split_attempts s' = split_attempts s @ [c_index (communities s ! p)]"
proof -
  show "split_attempts s' = split_attempts s @ [c_index (communities s ! p)]"
    by (rule split_attempt_log [OF att])
  from att show "(\<not> did \<longleftrightarrow> np_max (split_answer partition_method cfg (communities s ! p)) = Inr 0)"
  proof (cases rule: split_attempt_cases)
    case flagged
    then show ?thesis by (simp add: split_answer_def)
  next
    case (divided s1 vector m)
    then show ?thesis by (simp add: split_answer_def)
  qed
  from att show "\<not> did \<Longrightarrow> communities s'
           = (communities s)[p := (communities s ! p) \<lparr> c_monolithic := True \<rparr>]"
  proof (cases rule: split_attempt_cases)
    case flagged
    then show ?thesis by simp
  next
    case (divided s1 vector m)
    assume "\<not> did"
    with divided(1) show ?thesis by simp
  qed
  from att show "did \<Longrightarrow> \<exists>new. communities s'
           = take p (communities s) @ drop (Suc p) (communities s) @ new
             \<and> (\<forall>c \<in> set new. \<not> c_monolithic c)"
  proof (cases rule: split_attempt_cases)
    case flagged
    assume did
    with flagged(1) show ?thesis by simp
  next
    case (divided s1 vector m)
    from divided(6) obtain n where "s' = add_loop n cfg (s1 \<lparr> membership := vector \<rparr>)"
      by (auto simp: add_def split: if_splits)
    with add_loop_communities_eq [of n cfg "s1 \<lparr> membership := vector \<rparr>"]
      remove_Inr(5) [OF divided(2)]
    show ?thesis by auto
  qed
qed

lemma add_sets_no_flag:
  assumes "add cfg count s = Inr s'"
  shows "\<forall>c \<in> set (communities s'). c_monolithic c \<longrightarrow> c \<in> set (communities s)"
proof -
  from assms obtain n where "s' = add_loop n cfg s"
    by (auto simp: add_def split: option.splits if_splits sum.splits)
  with add_loop_communities_eq [of n cfg s] show ?thesis by auto
qed

lemma merge_few_or_small_sets_no_flag:
  assumes mg: "merge_few_or_small partition_method cfg s = Inr (s', did)"
  shows "\<forall>c \<in> set (communities s'). c_monolithic c \<longrightarrow> c \<in> set (communities s)"
proof (cases "length (map (\<lambda>position. communities s ! position)
                 (filter (\<lambda>position. few_or_small (communities s ! position))
                         [0 ..< length (communities s)])) < 2")
  case True
  with mg have "s' = s" by (simp add: merge_few_or_small_def Let_def)
  then show ?thesis by simp
next
  case False
  with mg obtain vector ps s2 n where
    r: "remove_positions ps (s \<lparr> membership := vector \<rparr>) = Inr s2"
    and ad: "add cfg (Some n) s2 = Inr s'"
    by (auto simp: merge_few_or_small_def Let_def split: sum.splits)
  from remove_positions_subset [OF r] have "set (communities s2) \<subseteq> set (communities s)"
    by simp
  with add_sets_no_flag [OF ad] show ?thesis by blast
qed

lemma pack_sets_no_flag:
  assumes run: "pack bin_pack cfg s = Inr s'"
  shows "\<forall>c \<in> set (communities s'). c_monolithic c \<longrightarrow> c \<in> set (communities s)"
proof -
  from run obtain s1 sizes idxs where pl: "pack_loop s 0 [] [] = Inr (s1, sizes, idxs)"
    by (auto simp: pack_def split: sum.splits)
  have sub: "set (communities s1) \<subseteq> set (communities s)"
  proof (rule pack_loop_rule [OF pl, of "\<lambda>t. set (communities t) \<subseteq> set (communities s)"])
    show "set (communities s) \<subseteq> set (communities s)" by simp
  next
    fix t q t1
    assume "set (communities t) \<subseteq> set (communities s)" and r: "remove q t = Inr t1"
    moreover from r have "remove_positions [q] t = Inr t1" by simp
    from remove_positions_subset [OF this] have "set (communities t1) \<subseteq> set (communities t)" .
    ultimately show "set (communities t1) \<subseteq> set (communities s)" by blast
  qed
  show ?thesis
  proof (cases "length idxs = 0")
    case True
    with run pl have "s' = s1" by (simp add: pack_def)
    with sub show ?thesis by blast
  next
    case False
    with run pl obtain vector n where
      ad: "add cfg (Some n) (s1 \<lparr> membership := vector \<rparr>) = Inr s'"
      by (auto simp: pack_def Let_def split: sum.splits)
    from add_sets_no_flag [OF ad] sub show ?thesis by auto
  qed
qed

lemma fill_sets_no_flag:
  assumes run: "fill bin_fill cfg s = Inr s'"
  shows "\<forall>c \<in> set (communities s'). c_monolithic c \<longrightarrow> c \<in> set (communities s)"
proof -
  from run obtain min_nodes where mn: "min_comm_nodes cfg = Some min_nodes"
    by (auto simp: fill_def split: option.splits)
  from run mn obtain s1 tot few_nodes few_idxs where
    fl: "fill_loop s 0 0 [] [] = Inr (s1, tot, few_nodes, few_idxs)"
    by (auto simp: fill_def split: sum.splits)
  have sub: "set (communities s1) \<subseteq> set (communities s)"
  proof (rule fill_loop_rule [OF fl, of "\<lambda>t. set (communities t) \<subseteq> set (communities s)"])
    show "set (communities s) \<subseteq> set (communities s)" by simp
  next
    fix t q t1
    assume "set (communities t) \<subseteq> set (communities s)" and r: "remove q t = Inr t1"
    moreover from r have "remove_positions [q] t = Inr t1" by simp
    from remove_positions_subset [OF this] have "set (communities t1) \<subseteq> set (communities t)" .
    ultimately show "set (communities t1) \<subseteq> set (communities s)" by blast
  qed
  show ?thesis
  proof (cases "length few_idxs = 0")
    case True
    with run mn fl have "s' = s1" by (simp add: fill_def)
    with sub show ?thesis by blast
  next
    case False
    let ?br = "if must_complete_cover cfg \<and> tot < min_nodes
               then borrow min_nodes s1 tot few_nodes few_idxs
               else Inr (s1, few_nodes, few_idxs)"
    from run mn fl False obtain s2 nodes idxs vector n where
      br: "?br = Inr (s2, nodes, idxs)"
      and ad: "add cfg (Some n) (s2 \<lparr> membership := vector \<rparr>) = Inr s'"
      by (simp add: fill_def Let_def split: sum.splits prod.splits)
    have "set (communities s2) \<subseteq> set (communities s1)"
    proof (cases "must_complete_cover cfg \<and> tot < min_nodes")
      case True
      with br obtain ps where "remove_positions ps s1 = Inr s2"
        by (auto simp: borrow_def split: prod.splits sum.splits)
      from remove_positions_subset [OF this] show ?thesis .
    next
      case False
      with br show ?thesis by simp
    qed
    with add_sets_no_flag [OF ad] sub show ?thesis by auto
  qed
qed

section \<open>Properties of the improver\<close>

lemma example_method_ok: "partition_ok example_method"
  by (auto simp: partition_ok_def example_method_def count_true_def)

lemma example_bins_ok: "bins_ok example_bins"
  by (simp add: bins_ok_def example_bins_def)

lemma example_improved_reachable:
  "reachable example_method example_bins example_bins example_config [0, 0, 0, 1, 1, 1]
     example_improved"
proof -
  let ?s0 = "projr (Improver_init example_config [0, 0, 0, 1, 1, 1])"
  have init: "Improver_init example_config [0, 0, 0, 1, 1, 1] = Inr ?s0" by code_simp
  have run: "improve example_method example_config ?s0 = Some (Inr example_improved)"
    by code_simp
  from reachable.improved [OF reachable.constructed [OF init] run] show ?thesis .
qed

lemma example_method_dense: "partition_dense example_method"
  unfolding partition_dense_def
proof (intro allI ballI impI)
  fix request i j
  assume i: "i \<in> set (example_method request)" and j: "0 \<le> j \<and> j \<le> i"
  show "j \<in> set (example_method request)"
  proof (cases request)
    case Whole_graph
    with i show ?thesis by (simp add: example_method_def)
  next
    case (Condensed_graph masks sizes)
    with i j show ?thesis by (auto simp: example_method_def)
  next
    case (Subgraph nodes_mask sizes)
    let ?n = "count_true nodes_mask"
    from i Subgraph obtain x where x: "x < nat ?n"
      and ix: "i = (if 2 * int x < ?n then 0 else 1)"
      by (auto simp: example_method_def)
    from x have "0 < nat ?n \<and> 2 * int 0 < ?n" by simp
    then have "\<exists>y < nat ?n. 2 * int y < ?n" by blast
    then have zero: "(0::int) \<in> set (example_method request)"
      using Subgraph by (auto simp: example_method_def image_iff)
    show ?thesis
    proof (cases "j = 0")
      case True
      with zero show ?thesis by simp
    next
      case False
      with j ix have "j = i" by (auto split: if_splits)
      with i show ?thesis by simp
    qed
  qed
qed

lemma example_initial_reachable:
  "reachable example_method example_bins example_bins example_config [0, 0, 0, 1, 1, 1]
     example_initial"
proof -
  have "Improver_init example_config [0, 0, 0, 1, 1, 1] = Inr example_initial" by code_simp
  then show ?thesis by (rule reachable.constructed)
qed


lemma heavy_initial_reachable:
  "reachable example_method example_bins example_bins heavy_config [0] heavy_initial"
proof -
  have "Improver_init heavy_config [0] = Inr heavy_initial" by code_simp
  then show ?thesis by (rule reachable.constructed)
qed

lemma heavy_attempt:
  "split_attempt example_method heavy_config heavy_initial 0 = Inr (heavy_flagged, False)"
  by code_simp

lemma heavy_split:
  "split_large example_method heavy_config heavy_initial = Some (Inr (heavy_flagged, False))"
  by code_simp

lemma gap_method_ok: "partition_ok gap_method"
  by (simp add: partition_ok_def gap_method_def count_true_def)

subsection \<open>C3: the sizes of the communities add up to the sizes of the nodes\<close>



subsection \<open>C7: what the monolithic flag excludes from splitting\<close>

text \<open>
  C7 (counterexample). The claim: a too-large community for which the partition method
  returns one community is flagged monolithic and from then on never passed to the
  partition method again. The flag is a field of the community record, and
  \<^verbatim>\<open>merge_few_or_small\<close> removes the communities it looks at and adds their nodes again
  as new, unflagged communities. In one \<^verbatim>\<open>improve\<close> on six nodes, the community of
  node 0 alone (size 6, above the maximal size 5, with too few nodes) is passed to the
  partition method as the community 3 and flagged, added again by the next merge as the
  community 7, with the same nodes and not flagged, and passed to the partition method a
  second time: the history of the split attempts is \<open>[2, 3, 7]\<close>.
\<close>

theorem retried_after_merge_counterexample:
  "Improver_init retry_config [0, 1, 2, 2, 2, 2] = Inr retry_initial
   \<and> merge_few_or_small halving_method retry_config retry_initial = Inr (retry_start, False)
   \<and> split_large halving_method retry_config retry_start = Some (Inr (retry_flagged, True))
   \<and> communities retry_flagged ! 0
       = \<lparr> c_index = 3, c_nodes = 1, c_size = 6,
           c_mask = [True, False, False, False, False, False],
           c_too_few = 1, c_too_small = 0, c_too_large = 1, c_monolithic = True \<rparr>
   \<and> merge_few_or_small halving_method retry_config retry_flagged = Inr (retry_merged, False)
   \<and> communities retry_merged ! 2
       = \<lparr> c_index = 7, c_nodes = 1, c_size = 6,
           c_mask = [True, False, False, False, False, False],
           c_too_few = 1, c_too_small = 0, c_too_large = 1, c_monolithic = False \<rparr>
   \<and> split_attempt halving_method retry_config retry_merged 2 = Inr (retry_final, False)
   \<and> split_large halving_method retry_config retry_merged = Some (Inr (retry_final, False))
   \<and> improve halving_method retry_config retry_initial = Some (Inr retry_final)
   \<and> split_attempts retry_final = [2, 3, 7]"
proof -
  have "Improver_init retry_config [0, 1, 2, 2, 2, 2] = Inr retry_initial" by code_simp
  moreover
  have "merge_few_or_small halving_method retry_config retry_initial = Inr (retry_start, False)"
    by code_simp
  moreover
  have "split_large halving_method retry_config retry_start = Some (Inr (retry_flagged, True))"
    by code_simp
  moreover
  have "merge_few_or_small halving_method retry_config retry_flagged = Inr (retry_merged, False)"
    by code_simp
  moreover
  have "split_attempt halving_method retry_config retry_merged 2 = Inr (retry_final, False)"
    by code_simp
  moreover
  have "split_large halving_method retry_config retry_merged = Some (Inr (retry_final, False))"
    by code_simp
  moreover
  have "improve halving_method retry_config retry_initial = Some (Inr retry_final)"
    by code_simp
  ultimately show ?thesis
    by (simp add: retry_flagged_def retry_merged_def retry_final_def)
qed

text \<open>
  The answer of the partition method for the subgraph of a community, as
  \<^verbatim>\<open>split_large\<close> asks for it, is \<open>split_answer\<close>; it is one community when its largest
  index is 0 (\<^verbatim>\<open>np.max(split_nodes_membership) + 1 == 1\<close>).

  C7 (as the code has it). In every state of one improver: no community index was given
  twice to the partition method for splitting; a community of the list is flagged
  monolithic exactly when its index was given to it, and then the answer of the partition
  method for its subgraph is one community. A split attempt on the community at a
  position reports no split exactly when the answer is one community, and then it flags
  that community and leaves the rest of the list as it is; otherwise it removes the
  community and appends unflagged communities. A \<^verbatim>\<open>split_large\<close> that returns has
  given to the partition method every community that was too large and not flagged when
  it started and no flagged one, and it leaves no community too large that is not
  flagged. \<^verbatim>\<open>merge_few_or_small\<close>, \<^verbatim>\<open>pack\<close> and \<^verbatim>\<open>fill\<close> set no flag: a flagged
  community of their result was in the list before, and the communities they add
  (also those with the nodes of a flagged community they removed) are not flagged.
\<close>

theorem monolithic_only_by_failed_split:
  assumes "reachable partition_method bin_pack bin_fill cfg membership_vector s"
  shows "distinct (split_attempts s)
    \<and> (\<forall>c \<in> set (communities s). c_monolithic c \<longleftrightarrow> c_index c \<in> set (split_attempts s))
    \<and> (\<forall>c \<in> set (communities s).
          c_monolithic c \<longrightarrow> np_max (split_answer partition_method cfg c) = Inr 0)
    \<and> (\<forall>p s' did.
          split_attempt partition_method cfg s p = Inr (s', did)
          \<longrightarrow> (\<not> did \<longleftrightarrow> np_max (split_answer partition_method cfg (communities s ! p)) = Inr 0)
              \<and> (\<not> did \<longrightarrow> communities s'
                    = (communities s)[p := (communities s ! p) \<lparr> c_monolithic := True \<rparr>])
              \<and> (did \<longrightarrow> (\<exists>new. communities s'
                    = take p (communities s) @ drop (Suc p) (communities s) @ new
                    \<and> (\<forall>c \<in> set new. \<not> c_monolithic c)))
              \<and> split_attempts s' = split_attempts s @ [c_index (communities s ! p)])
    \<and> (\<forall>s' did.
          split_large partition_method cfg s = Some (Inr (s', did))
          \<longrightarrow> (\<forall>c \<in> set (communities s'). c_too_large c \<noteq> 0 \<longrightarrow> c_monolithic c)
              \<and> (\<exists>new. split_attempts s' = split_attempts s @ new
                    \<and> (\<forall>c \<in> set (communities s).
                          (c_monolithic c \<longrightarrow> c_index c \<notin> set new)
                          \<and> (c_too_large c \<noteq> 0 \<and> \<not> c_monolithic c
                               \<longrightarrow> c_index c \<in> set new))))
    \<and> (\<forall>s' did.
          merge_few_or_small partition_method cfg s = Inr (s', did)
          \<longrightarrow> (\<forall>c \<in> set (communities s'). c_monolithic c \<longrightarrow> c \<in> set (communities s)))
    \<and> (\<forall>s'. pack bin_pack cfg s = Inr s' \<or> fill bin_fill cfg s = Inr s'
          \<longrightarrow> (\<forall>c \<in> set (communities s'). c_monolithic c \<longrightarrow> c \<in> set (communities s)))"
proof (intro conjI allI impI)
  from reachable_attempts [OF assms] have a: "attempts_ok s" .
  from a show "distinct (split_attempts s)" by (simp add: attempts_ok_def)
  from a show "\<forall>c \<in> set (communities s).
      c_monolithic c \<longleftrightarrow> c_index c \<in> set (split_attempts s)"
    by (simp add: attempts_ok_def)
  from reachable_flags [OF assms]
  show "\<forall>c \<in> set (communities s).
          c_monolithic c \<longrightarrow> np_max (split_answer partition_method cfg c) = Inr 0"
    by (simp add: flags_ok_def)
  {
    fix p s' did
    assume att: "split_attempt partition_method cfg s p = Inr (s', did)"
    note out = split_attempt_outcome [OF att]
    from out(1)
    show "\<not> did \<longleftrightarrow> np_max (split_answer partition_method cfg (communities s ! p)) = Inr 0" .
    from out(4)
    show "split_attempts s' = split_attempts s @ [c_index (communities s ! p)]" .
    {
      assume "\<not> did"
      from out(2) [OF this]
      show "communities s'
          = (communities s)[p := (communities s ! p) \<lparr> c_monolithic := True \<rparr>]" .
    }
    {
      assume did
      from out(3) [OF this]
      show "\<exists>new. communities s'
               = take p (communities s) @ drop (Suc p) (communities s) @ new
               \<and> (\<forall>c \<in> set new. \<not> c_monolithic c)" .
    }
  }
  {
    fix s' did
    assume run: "split_large partition_method cfg s = Some (Inr (s', did))"
    from split_large_flags_all [OF run]
    show "\<forall>c \<in> set (communities s'). c_too_large c \<noteq> 0 \<longrightarrow> c_monolithic c" .
    from split_large_log [OF run] obtain new where
      new: "split_attempts s' = split_attempts s @ new" by blast
    from split_large_attempts [OF a run] have "attempts_ok s'" .
    with new have disj: "set (split_attempts s) \<inter> set new = {}"
      by (simp add: attempts_ok_def)
    have "\<forall>c \<in> set (communities s).
             (c_monolithic c \<longrightarrow> c_index c \<notin> set new)
             \<and> (c_too_large c \<noteq> 0 \<and> \<not> c_monolithic c \<longrightarrow> c_index c \<in> set new)"
    proof (intro ballI conjI impI)
      fix c assume c: "c \<in> set (communities s)" and "c_monolithic c"
      with a have "c_index c \<in> set (split_attempts s)" by (simp add: attempts_ok_def)
      with disj show "c_index c \<notin> set new" by blast
    next
      fix c assume c: "c \<in> set (communities s)"
        and l: "c_too_large c \<noteq> 0 \<and> \<not> c_monolithic c"
      from split_large_tries_all [OF run c] l new
      have "c_index c \<in> set (split_attempts s) \<union> set new" by simp
      moreover from a c l have "c_index c \<notin> set (split_attempts s)"
        by (simp add: attempts_ok_def)
      ultimately show "c_index c \<in> set new" by blast
    qed
    with new show "\<exists>new. split_attempts s' = split_attempts s @ new
        \<and> (\<forall>c \<in> set (communities s).
              (c_monolithic c \<longrightarrow> c_index c \<notin> set new)
              \<and> (c_too_large c \<noteq> 0 \<and> \<not> c_monolithic c \<longrightarrow> c_index c \<in> set new))"
      by blast
  }
  {
    fix s' did
    assume "merge_few_or_small partition_method cfg s = Inr (s', did)"
    then show "\<forall>c \<in> set (communities s'). c_monolithic c \<longrightarrow> c \<in> set (communities s)"
      by (rule merge_few_or_small_sets_no_flag)
  }
  {
    fix s'
    assume "pack bin_pack cfg s = Inr s' \<or> fill bin_fill cfg s = Inr s'"
    then show "\<forall>c \<in> set (communities s'). c_monolithic c \<longrightarrow> c \<in> set (communities s)"
      using pack_sets_no_flag fill_sets_no_flag by blast
  }
qed

theorem monolithic_only_by_failed_split_witness:
  "reachable example_method example_bins example_bins heavy_config [0] heavy_initial
   \<and> split_attempt example_method heavy_config heavy_initial 0 = Inr (heavy_flagged, False)
   \<and> np_max (split_answer example_method heavy_config (communities heavy_initial ! 0)) = Inr 0
   \<and> split_large example_method heavy_config heavy_initial
       = Some (Inr (heavy_flagged, False))
   \<and> communities heavy_flagged
       = (communities heavy_initial)
           [0 := (communities heavy_initial ! 0) \<lparr> c_monolithic := True \<rparr>]
   \<and> split_attempts heavy_flagged = split_attempts heavy_initial @ [0]
   \<and> list_all c_monolithic (communities heavy_flagged)"
proof -
  note main = monolithic_only_by_failed_split [OF heavy_initial_reachable]
  from main have "\<forall>p s' did.
          split_attempt example_method heavy_config heavy_initial p = Inr (s', did)
          \<longrightarrow> (\<not> did \<longleftrightarrow> np_max (split_answer example_method heavy_config
                                     (communities heavy_initial ! p)) = Inr 0)
              \<and> (\<not> did \<longrightarrow> communities s'
                    = (communities heavy_initial)
                        [p := (communities heavy_initial ! p) \<lparr> c_monolithic := True \<rparr>])
              \<and> split_attempts s'
                  = split_attempts heavy_initial @ [c_index (communities heavy_initial ! p)]"
    by blast
  from this [rule_format, OF heavy_attempt]
  have flagged: "np_max (split_answer example_method heavy_config
                           (communities heavy_initial ! 0)) = Inr 0
     \<and> communities heavy_flagged
       = (communities heavy_initial)
           [0 := (communities heavy_initial ! 0) \<lparr> c_monolithic := True \<rparr>]
     \<and> split_attempts heavy_flagged
         = split_attempts heavy_initial @ [c_index (communities heavy_initial ! 0)]"
    by blast
  from main heavy_split
  have "\<forall>c \<in> set (communities heavy_flagged). c_too_large c \<noteq> 0 \<longrightarrow> c_monolithic c"
    by blast
  then have "list_all c_monolithic (communities heavy_flagged)"
    by (simp add: heavy_flagged_def)
  with flagged heavy_initial_reachable heavy_attempt heavy_split show ?thesis
    by (simp add: heavy_initial_def)
qed

subsection \<open>C5: what \<^verbatim>\<open>pack\<close> and \<^verbatim>\<open>fill\<close> guarantee about the bounds\<close>

text \<open>
  C5 (counterexample). The claim: after \<^verbatim>\<open>pack\<close> and \<^verbatim>\<open>fill\<close> every community has
  at least the minimal size and the minimal number of nodes, and only communities flagged
  monolithic exceed the maximal size. With one node of size
  1, minimal size 4 and at least two nodes per community, the refinement ends with one
  community of size 1 and one node. With two nodes of size 3 in two communities, maximal
  size 5 and at least two nodes per community, \<^verbatim>\<open>fill\<close> merges the two communities
  into one of size 6, which is not flagged monolithic, and nothing splits it afterwards.
\<close>

theorem pack_fill_bounds_counterexample:
  "refine example_method example_bins example_bins small_config [0] = Some (Inr small_filled)
   \<and> min_comm_size small_config = Some 4 \<and> min_comm_nodes small_config = Some 2
   \<and> map c_size (communities small_filled) = [1]
   \<and> map c_nodes (communities small_filled) = [1]
   \<and> refine separate_method separate_bins example_bins pair_config [0, 1]
       = Some (Inr pair_filled)
   \<and> max_comm_size pair_config = Some 5
   \<and> map c_size (communities pair_filled) = [6]
   \<and> map c_monolithic (communities pair_filled) = [False]"
proof -
  have "refine example_method example_bins example_bins small_config [0]
          = Some (Inr small_filled)"
    by code_simp
  moreover have "refine separate_method separate_bins example_bins pair_config [0, 1]
          = Some (Inr pair_filled)"
    by code_simp
  ultimately show ?thesis
    by (simp add: small_config_def small_filled_def pair_config_def pair_filled_def)
qed

text \<open>
  C5 (as the code has it). After \<^verbatim>\<open>pack\<close> and then \<^verbatim>\<open>fill\<close> have run on a state of the
  improver, every community of the list that is older than the two calls (its index is
  below the next unused index before \<^verbatim>\<open>pack\<close>) was in the list before, and has at
  least the minimal size and at least the minimal number of nodes, when these are
  configured. Nothing of the kind holds for the communities that \<^verbatim>\<open>pack\<close> and
  \<^verbatim>\<open>fill\<close> create, nor for the maximal size.
\<close>

theorem kept_communities_reach_minimum:
  assumes "partition_ok partition_method" and "bins_ok bin_pack" and "bins_ok bin_fill"
    and "\<forall>v \<in> set membership_vector. 0 \<le> v"
    and "reachable partition_method bin_pack bin_fill cfg membership_vector s"
    and "pack bin_pack cfg s = Inr s1" and "fill bin_fill cfg s1 = Inr s2"
    and "c \<in> set (communities s2)" and "c_index c < next_community_index s"
  shows "c \<in> set (communities s)
    \<and> (\<forall>m. min_comm_size cfg = Some m \<longrightarrow> m \<le> c_size c)
    \<and> (\<forall>n. min_comm_nodes cfg = Some n \<longrightarrow> n \<le> c_nodes c)"
proof -
  from reachable_consistent [OF assms(1-5)] have cs: "consistent cfg {} 0 s" by simp
  from pack_consistent [OF cs assms(2,6)] have cs1: "consistent cfg {} 0 s1" by simp
  from pack_kept(1) [OF cs assms(6)] assms(9)
  have "c_index c < next_community_index s1" by simp
  from fill_kept(2) [OF cs1 assms(7,8) this] have "c \<in> set (communities s1)" by simp
  from pack_kept(2) [OF cs assms(6) this assms(9)]
  have c: "c \<in> set (communities s)" and ok: "c_too_small c = 0" "c_too_few c = 0"
    by (simp_all add: compliant_def)
  from cs c have "community_ok cfg (membership s) c" by (simp add: consistent_def)
  from community_ok_bounds(1,2) [OF this] ok c show ?thesis by simp
qed

theorem kept_communities_reach_minimum_witness:
  "partition_ok example_method \<and> bins_ok example_bins
   \<and> list_all (\<lambda>v. 0 \<le> v) [0, 0, 0, 1, 1, 1 :: int]
   \<and> reachable example_method example_bins example_bins example_config [0, 0, 0, 1, 1, 1]
        example_improved
   \<and> pack example_bins example_config example_improved = Inr example_improved
   \<and> fill example_bins example_config example_improved = Inr example_improved
   \<and> communities example_improved ! 0 \<in> set (communities example_improved)
   \<and> c_index (communities example_improved ! 0) < next_community_index example_improved
   \<and> min_comm_size example_config = Some 4
   \<and> 4 \<le> c_size (communities example_improved ! 0)
   \<and> min_comm_nodes example_config = Some 1
   \<and> 1 \<le> c_nodes (communities example_improved ! 0)"
proof -
  have nonneg: "\<forall>v \<in> set [0, 0, 0, 1, 1, 1 :: int]. 0 \<le> v" by simp
  have p: "pack example_bins example_config example_improved = Inr example_improved"
    by code_simp
  have f: "fill example_bins example_config example_improved = Inr example_improved"
    by code_simp
  have c: "communities example_improved ! 0 \<in> set (communities example_improved)"
    by (simp add: example_improved_def)
  have i: "c_index (communities example_improved ! 0) < next_community_index example_improved"
    by (simp add: example_improved_def)
  have mins: "min_comm_size example_config = Some 4" "min_comm_nodes example_config = Some 1"
    by (simp_all add: example_config_def)
  from kept_communities_reach_minimum [OF example_method_ok example_bins_ok example_bins_ok
      nonneg example_improved_reachable p f c i] mins
  have "4 \<le> c_size (communities example_improved ! 0)
      \<and> 1 \<le> c_nodes (communities example_improved ! 0)"
    by simp
  with example_method_ok example_bins_ok example_improved_reachable p f c i mins
  show ?thesis by simp
qed

subsection \<open>C2: when \<^verbatim>\<open>improve\<close> returns\<close>

lemma gap_state_0: "gap_state 0 = heavy_initial"
  by (simp add: gap_state_def heavy_initial_def)

lemma gap_state_communities:
  "length (communities (gap_state n)) = n + 1"
  "p < n \<Longrightarrow> c_too_large (communities (gap_state n) ! p) = 0"
  "c_too_large (communities (gap_state n) ! n) = 1"
  "\<not> c_monolithic (communities (gap_state n) ! n)"
  by (simp_all add: gap_state_def nth_append)

lemma gap_split_attempt:
  "split_attempt gap_method heavy_config (gap_state n) n = Inr (gap_state (Suc n), True)"
proof -
  let ?empty = "\<lambda>j. \<lparr> c_index = 2 * int j + 1, c_nodes = 0, c_size = 0, c_mask = [False],
                      c_too_few = 0, c_too_small = 0, c_too_large = 0,
                      c_monolithic = False \<rparr>"
  let ?big = "\<lambda>n. \<lparr> c_index = 2 * int n, c_nodes = 1, c_size = 6, c_mask = [True],
                    c_too_few = 0, c_too_small = 0, c_too_large = 1, c_monolithic = False \<rparr>"
  let ?s0 = "gap_state n \<lparr> split_attempts := split_attempts (gap_state n) @ [2 * int n] \<rparr>"
  let ?s1 = "\<lparr> membership = [2 * int n], communities = map ?empty [0 ..< n],
               too_few = 0, too_small = 0, too_large = 0,
               next_community_index = 2 * int n + 1,
               split_attempts = map (\<lambda>j. 2 * int j) [0 ..< n] @ [2 * int n] \<rparr>"
  have last: "communities (gap_state n) ! n = ?big n"
    by (simp add: gap_state_def nth_append)
  have answer: "gap_method (Subgraph [True] (Some [6])) = [1]"
    by (simp add: gap_method_def count_true_def)
  have sizes: "map_option (\<lambda>sizes. masked sizes [True]) (node_sizes heavy_config) = Some [6]"
    by (simp add: heavy_config_def masked_def)
  have removed: "remove n ?s0 = Inr ?s1"
    by (simp add: remove_def Let_def gap_state_def nth_append)
  have assigned: "assign_values (membership ?s1) [True]
                    (map (\<lambda>v. v + next_community_index ?s1) [1]) = Inr [2 * int n + 2]"
    by (simp add: assign_values_def count_true_def)
  have first: "add_community heavy_config (?s1 \<lparr> membership := [2 * int n + 2] \<rparr>)
      = \<lparr> membership = [2 * int n + 2], communities = map ?empty [0 ..< Suc n],
          too_few = 0, too_small = 0, too_large = 0,
          next_community_index = 2 * int n + 2,
          split_attempts = map (\<lambda>j. 2 * int j) [0 ..< Suc n] \<rparr>"
    by (simp add: add_community_def Let_def heavy_config_def count_true_def masked_def)
  have second: "add_community heavy_config
        \<lparr> membership = [2 * int n + 2], communities = map ?empty [0 ..< Suc n],
          too_few = 0, too_small = 0, too_large = 0,
          next_community_index = 2 * int n + 2,
          split_attempts = map (\<lambda>j. 2 * int j) [0 ..< Suc n] \<rparr>
      = gap_state (Suc n)"
    by (simp add: add_community_def Let_def heavy_config_def count_true_def masked_def
          gap_state_def)
  have "add_loop 2 heavy_config (?s1 \<lparr> membership := [2 * int n + 2] \<rparr>) = gap_state (Suc n)"
    unfolding numeral_2_eq_2 add_loop.simps first second ..
  then have added: "add heavy_config (Some (1 + 1)) (?s1 \<lparr> membership := [2 * int n + 2] \<rparr>)
      = Inr (gap_state (Suc n))"
    by (simp add: add_def)
  have idx: "c_index (?big n) = 2 * int n" and msk: "c_mask (?big n) = [True]" by simp_all
  show ?thesis
    unfolding split_attempt_def Let_def last idx msk sizes answer
    using removed assigned added by (simp add: gap_state_def)
qed

lemma gap_loop_never_returns:
  assumes run: "split_large_loop gap_method heavy_config (gap_state n) p did_split = Some y"
    and p: "p \<le> n"
  shows False
proof -
  have gen: "split_large_loop pm0 cfg0 s0 p0 d0 = Some y0 \<Longrightarrow> pm0 = gap_method
      \<Longrightarrow> cfg0 = heavy_config \<Longrightarrow> \<forall>k. s0 = gap_state k \<longrightarrow> \<not> p0 \<le> k"
    for pm0 cfg0 s0 p0 d0 y0
  proof (induction pm0 cfg0 s0 p0 d0 y0 rule: split_large_loop.raw_induct [rotated 1, consumes 1])
    case (1 loop pm0 cfg0 s0 p0 d0 y0)
    note hyps = "1.hyps" and IH = "1.IH"
    note pm0 = "1.prems"(1) and cfg0 = "1.prems"(2)
    show ?case
    proof (intro allI impI notI)
      fix k assume s0: "s0 = gap_state k" and le: "p0 \<le> k"
      show False
      proof (cases "p0 < k")
        case True
        with hyps s0 have "loop pm0 cfg0 (gap_state k) (p0 + 1) d0 = Some y0"
          by (simp add: gap_state_communities)
        from IH [OF this pm0 cfg0] have "\<not> p0 + 1 \<le> k" by blast
        with True show False by simp
      next
        case False
        with le have eq: "p0 = k" by simp
        with hyps s0 pm0 cfg0 have "loop pm0 cfg0 (gap_state (Suc k)) k True = Some y0"
          by (simp add: gap_state_communities gap_split_attempt)
        from IH [OF this pm0 cfg0] have "\<not> k \<le> Suc k" by blast
        then show False by simp
      qed
    qed
  qed
  from gen [OF run refl refl] p show False by blast
qed

lemma gap_split_large_never_returns:
  "split_large gap_method heavy_config heavy_initial = None"
proof (cases "split_large gap_method heavy_config heavy_initial")
  case None
  then show ?thesis .
next
  case (Some y)
  then have "split_large_loop gap_method heavy_config (gap_state 0) 0 False = Some y"
    by (simp add: split_large_def gap_state_0)
  from gap_loop_never_returns [OF this] show ?thesis by simp
qed

text \<open>
  C2 (counterexample). The claim: \<^verbatim>\<open>improve\<close> terminates for every input. With one
  node of size 6 and maximal size 5, and a partition method that answers \<open>[1]\<close> for the
  subgraph of the node (one index per node, not negative, the index 0 unused),
  \<^verbatim>\<open>np.max(split_nodes_membership) + 1\<close> is 2: \<^verbatim>\<open>split_large\<close> takes this for a split,
  removes the community and adds an empty community and the community of the node again,
  unflagged, and so on for ever. \<^verbatim>\<open>improve\<close> never returns.
\<close>

theorem improve_never_returns_counterexample:
  "partition_ok gap_method
   \<and> Improver_init heavy_config [0] = Inr heavy_initial
   \<and> gap_method (Subgraph [True] (Some [6])) = [1]
   \<and> improve gap_method heavy_config heavy_initial = None
   \<and> refine gap_method example_bins example_bins heavy_config [0] = None"
proof -
  have init: "Improver_init heavy_config [0] = Inr heavy_initial" by code_simp
  have answer: "gap_method (Subgraph [True] (Some [6])) = [1]"
    by (simp add: gap_method_def count_true_def)
  have totals: "too_few heavy_initial = 0" "too_small heavy_initial = 0"
    "too_large heavy_initial = 1"
    by (simp_all add: heavy_initial_def)
  have bounds: "max_comm_size heavy_config \<noteq> None" "min_comm_size heavy_config = None"
    by (simp_all add: heavy_config_def)
  have "split_while gap_method heavy_config heavy_initial False = None"
    by (subst split_while.simps) (simp add: gap_split_large_never_returns totals)
  then have "improve_loop gap_method heavy_config heavy_initial (0, 2) = None"
    using bounds by (subst improve_loop.simps) (simp add: tuple_less_def totals)
  then have run: "improve gap_method heavy_config heavy_initial = None"
    by (simp add: improve_def bounds totals)
  with init have "refine gap_method example_bins example_bins heavy_config [0] = None"
    by (simp add: refine_def)
  with gap_method_ok init answer run show ?thesis by simp
qed

text \<open>
  C2 (as the code has it). For every membership vector (of non-negative community
  indices), node sizes and bounds, and a partition method that returns one community
  index per node, numbered from 0 without gaps: in every state of the improver
  \<^verbatim>\<open>improve\<close> returns (a result or an error; it does not run forever); the penalty pair
  \<open>(too_few, too_small + too_large)\<close> is a pair of non-negative integers; the outer loop
  goes on only while the pair is strictly below the pair of the previous round in Python's
  (lexicographic) order on pairs, and stops otherwise; and the inner merge loop and the
  inner split loop stop at the first \<^verbatim>\<open>merge_few_or_small\<close>, respectively
  \<^verbatim>\<open>split_large\<close>, that reports no improvement.
\<close>

theorem improve_always_returns:
  assumes "partition_ok partition_method" and "partition_dense partition_method"
    and "bins_ok bin_pack" and "bins_ok bin_fill"
    and "\<forall>v \<in> set membership_vector. 0 \<le> v"
    and "reachable partition_method bin_pack bin_fill cfg membership_vector s"
  shows "improve partition_method cfg s \<noteq> None
    \<and> 0 \<le> too_few s \<and> 0 \<le> too_small s + too_large s
    \<and> (\<forall>penalty. \<not> tuple_less (too_few s, too_small s + too_large s) penalty
          \<longrightarrow> improve_loop partition_method cfg s penalty = Some (Inr s))
    \<and> (\<forall>s'. (0 < too_few s \<or> 0 < too_small s)
             \<and> merge_few_or_small partition_method cfg s = Inr (s', False)
          \<longrightarrow> merge_while partition_method cfg s = Some (Inr s'))
    \<and> (\<forall>s' did_split. 0 < too_large s
             \<and> split_large partition_method cfg s = Some (Inr (s', False))
          \<longrightarrow> split_while partition_method cfg s did_split = Some (Inr (s', did_split)))"
proof (intro conjI allI impI)
  from reachable_consistent [OF assms(1,3,4,5,6)] have c: "consistent cfg {} 0 s" by simp
  from improve_returns [OF assms(1,2) c] show "improve partition_method cfg s \<noteq> None"
    by auto
  from consistent_nonneg [OF c] show "0 \<le> too_few s" and "0 \<le> too_small s + too_large s"
    by simp_all
next
  fix penalty
  assume "\<not> tuple_less (too_few s, too_small s + too_large s) penalty"
  then show "improve_loop partition_method cfg s penalty = Some (Inr s)"
    by (subst improve_loop.simps) simp
next
  fix s'
  assume "(0 < too_few s \<or> 0 < too_small s)
          \<and> merge_few_or_small partition_method cfg s = Inr (s', False)"
  then show "merge_while partition_method cfg s = Some (Inr s')"
    by (subst merge_while.simps) simp
next
  fix s' did_split
  assume "0 < too_large s \<and> split_large partition_method cfg s = Some (Inr (s', False))"
  then show "split_while partition_method cfg s did_split = Some (Inr (s', did_split))"
    by (subst split_while.simps) simp
qed

theorem improve_always_returns_witness:
  "partition_ok example_method \<and> partition_dense example_method \<and> bins_ok example_bins
   \<and> list_all (\<lambda>v. 0 \<le> v) [0, 0, 0, 1, 1, 1 :: int]
   \<and> reachable example_method example_bins example_bins example_config [0, 0, 0, 1, 1, 1]
        example_initial
   \<and> improve example_method example_config example_initial \<noteq> None
   \<and> improve example_method example_config example_initial = Some (Inr example_improved)
   \<and> improve_loop example_method example_config example_initial (0, 2)
       = Some (Inr example_initial)"
proof -
  have nonneg: "\<forall>v \<in> set [0, 0, 0, 1, 1, 1 :: int]. 0 \<le> v" by simp
  note main = improve_always_returns [OF example_method_ok example_method_dense
      example_bins_ok example_bins_ok nonneg example_initial_reachable]
  from main have returns: "improve example_method example_config example_initial \<noteq> None"
    by blast
  have stop: "\<not> tuple_less (too_few example_initial,
                  too_small example_initial + too_large example_initial) (0, 2)"
    by (simp add: tuple_less_def example_initial_def)
  from main have "\<forall>penalty. \<not> tuple_less (too_few example_initial,
                  too_small example_initial + too_large example_initial) penalty
          \<longrightarrow> improve_loop example_method example_config example_initial penalty
              = Some (Inr example_initial)"
    by blast
  with stop have loop: "improve_loop example_method example_config example_initial (0, 2)
       = Some (Inr example_initial)"
    by blast
  have run: "improve example_method example_config example_initial
               = Some (Inr example_improved)"
    by code_simp
  from returns loop run example_method_ok example_method_dense example_bins_ok
    example_initial_reachable
  show ?thesis by simp
qed

subsection \<open>C4: when \<^verbatim>\<open>merge_few_or_small\<close> reports an improvement\<close>




end
